theory Spec2Isabelle
  imports Main "HOL-Library.AList"
begin

section \<open>Data model of testing.go\<close>

text \<open>
  Modelled from the spec: the declaration of \<open>ResourceSet\<close> is not part of
  \<^verbatim>\<open>testing.go\<close>; the spec describes it as a mapping from a resource type (a
  string) to an integer quantity. The spec gives the quantity no width, so it
  is a mathematical integer here. A Go map is represented by an association list
  whose keys are pairwise distinct; the order of the list stands for the order in
  which a \<^verbatim>\<open>range\<close> loop happens to produce the entries.
\<close>

type_synonym ResourceSet = "(string \<times> int) list"

text \<open>\<^verbatim>\<open>m[k]\<close> on a Go map: the zero value when the key is absent.\<close>

definition lookup0 :: "ResourceSet \<Rightarrow> string \<Rightarrow> int" where
  "lookup0 m k = (case map_of m k of None \<Rightarrow> 0 | Some v \<Rightarrow> v)"

text \<open>
  A channel is identified by a number; \<^verbatim>\<open>make(chan interface{})\<close> returns a
  channel that did not exist before.
\<close>

type_synonym chan = nat

record queueItem =
  wait :: chan
  required :: ResourceSet

record transaction =
  name :: string
  item :: queueItem

text \<open>
  The package-level variables. \<open>woken\<close> is the state of the \<open>wait\<close> channels: it
  lists the items on which \<^verbatim>\<open>close(item.wait)\<close> has been executed, most recent
  first. The channels \<open>enqueue\<close> and \<open>release\<close> are unbuffered, so they hold no
  state: what is sent on them is the sequence of events below.
\<close>

record state =
  available :: ResourceSet
  unallocated :: ResourceSet
  queue :: "(string \<times> queueItem) list"
  woken :: "queueItem list"

datatype event = EnqueueEv transaction | ReleaseEv ResourceSet

text \<open>Closing a channel that is already closed is a run-time panic in Go.\<close>

datatype error = CloseOfClosedChannel

definition init :: state where
  "init = \<lparr>available = [], unallocated = [], queue = [], woken = []\<rparr>"

section \<open>Start\<close>

definition Start :: "ResourceSet \<Rightarrow> state \<Rightarrow> state" where
  "Start resources s =
     s\<lparr>available := resources,
       unallocated := fold (\<lambda>(k, v) u. AList.update k v u) resources (unallocated s)\<rparr>"

section \<open>The goroutine of Start\<close>

text \<open>The \<^verbatim>\<open>release\<close> branch: \<^verbatim>\<open>unallocated[k] += v\<close> for every entry.\<close>

definition give_back :: "ResourceSet \<Rightarrow> ResourceSet \<Rightarrow> ResourceSet" where
  "give_back allocated u = fold (\<lambda>(k, v) u. AList.update k (lookup0 u k + v) u) allocated u"

text \<open>The \<^verbatim>\<open>select\<close> statement, for the event that is received.\<close>

fun select_event :: "event \<Rightarrow> state \<Rightarrow> state" where
  "select_event (EnqueueEv tr) s = s\<lparr>queue := AList.update (name tr) (item tr) (queue s)\<rparr>"
| "select_event (ReleaseEv allocated) s = s\<lparr>unallocated := give_back allocated (unallocated s)\<rparr>"

text \<open>
  The flag \<open>ok\<close> after the first inner loop: no entry of \<open>required\<close> has
  \<^verbatim>\<open>unallocated[k] < v\<close>.
\<close>

definition satisfiable :: "ResourceSet \<Rightarrow> ResourceSet \<Rightarrow> bool" where
  "satisfiable u req = list_all (\<lambda>(k, v). \<not> lookup0 u k < v) req"

text \<open>The second inner loop: \<^verbatim>\<open>unallocated[k] -= v\<close> for every entry.\<close>

definition take_out :: "ResourceSet \<Rightarrow> ResourceSet \<Rightarrow> ResourceSet" where
  "take_out req u = fold (\<lambda>(k, v) u. AList.update k (lookup0 u k - v) u) req u"

text \<open>
  The body of \<^verbatim>\<open>for name, item := range queue\<close> for the entry called \<open>nm\<close>.
  An entry that is no longer in the map is not produced. The pool and the queue
  are written before \<^verbatim>\<open>close(item.wait)\<close>, which panics on a closed channel.
\<close>

definition admit :: "string \<Rightarrow> state \<Rightarrow> error + state" where
  "admit nm s =
     (case map_of (queue s) nm of
        None \<Rightarrow> Inr s
      | Some it \<Rightarrow>
          if satisfiable (unallocated s) (required it) then
            (if wait it \<in> set (map wait (woken s)) then Inl CloseOfClosedChannel
             else Inr (s\<lparr>unallocated := take_out (required it) (unallocated s),
                         queue := AList.delete nm (queue s),
                         woken := it # woken s\<rparr>))
          else Inr s)"

text \<open>
  The loop over the queue. Go leaves the order of a \<^verbatim>\<open>range\<close> over a map
  unspecified, so the order \<open>ns\<close> in which the names are produced is a parameter;
  \<open>scan_order\<close> says that it enumerates the keys of the queue, each once.
\<close>

fun admission_pass :: "string list \<Rightarrow> state \<Rightarrow> error + state" where
  "admission_pass [] s = Inr s"
| "admission_pass (nm # rest) s =
     (case admit nm s of Inl e \<Rightarrow> Inl e | Inr s' \<Rightarrow> admission_pass rest s')"

definition scan_order :: "string list \<Rightarrow> (string \<times> queueItem) list \<Rightarrow> bool" where
  "scan_order ns q = (distinct ns \<and> set ns = set (map fst q))"

text \<open>One iteration of the outer \<^verbatim>\<open>for\<close>: an event, then the pass.\<close>

definition cycle :: "event \<Rightarrow> string list \<Rightarrow> state \<Rightarrow> error + state" where
  "cycle ev ns s = admission_pass ns (select_event ev s)"

section \<open>Parallel\<close>

text \<open>
  \<^verbatim>\<open>t.Skipf\<close> ends the calling test at once, so nothing is sent when some
  entry fails the check. Otherwise the transaction built from the test name
  \<open>tname\<close>, the channel \<open>w\<close> just made and \<open>req\<close> is sent on \<open>enqueue\<close>. The
  lines that \<open>Parallel\<close> prints and the time it measures are output only and
  are left out; waiting on \<open>wait\<close> ends when the item is in \<open>woken\<close>.
\<close>

datatype outcome = Skip | Submit transaction

definition Parallel :: "state \<Rightarrow> string \<Rightarrow> chan \<Rightarrow> ResourceSet \<Rightarrow> outcome" where
  "Parallel s tname w req =
     (if list_ex (\<lambda>(k, v). case map_of (available s) k of
                              None \<Rightarrow> True
                            | Some availableResource \<Rightarrow> v > availableResource) req
      then Skip
      else Submit \<lparr>name = tname, item = \<lparr>wait = w, required = req\<rparr>\<rparr>)"

text \<open>
  The loop of \<open>Parallel\<close> once more, now counting its lookups \<^verbatim>\<open>available[k]\<close>:
  every iteration does one, and \<^verbatim>\<open>t.Skipf\<close> ends the loop. The result says
  whether the test is skipped and how many times \<open>available\<close> was read.
\<close>

fun feasibility_loop :: "ResourceSet \<Rightarrow> ResourceSet \<Rightarrow> bool \<times> nat" where
  "feasibility_loop avail [] = (False, 0)"
| "feasibility_loop avail ((k, v) # rest) =
     (case map_of avail k of
        None \<Rightarrow> (True, 1)
      | Some availableResource \<Rightarrow>
          if v > availableResource then (True, 1)
          else (case feasibility_loop avail rest of (skipped, n) \<Rightarrow> (skipped, Suc n)))"

section \<open>The tests and the coordinator together\<close>

text \<open>
  A test either calls \<open>Parallel\<close> or, once it has been woken, runs the closure
  that \<open>Parallel\<close> returned, which sends its \<open>required\<close> on \<open>release\<close>. Beside the
  program state a run keeps two auxiliary values that the program does not have:
  the number of channels made so far, and the demands that were granted and have
  not been released yet.
\<close>

datatype action = Call string ResourceSet | Done ResourceSet

record world =
  coord :: state
  nchan :: nat
  held :: "ResourceSet list"

definition boot :: "ResourceSet \<Rightarrow> world" where
  "boot cap = \<lparr>coord = Start cap init, nchan = 0, held = []\<rparr>"

text \<open>The demands of the items woken between two states.\<close>

definition new_grants :: "state \<Rightarrow> state \<Rightarrow> ResourceSet list" where
  "new_grants s s' = map required (take (length (woken s') - length (woken s)) (woken s'))"

text \<open>What a test sends to the coordinator: nothing when \<open>Parallel\<close> skips it.\<close>

fun emit :: "action \<Rightarrow> world \<Rightarrow> event option" where
  "emit (Call t req) w =
     (case Parallel (coord w) t (nchan w) req of
        Skip \<Rightarrow> None
      | Submit tr \<Rightarrow> Some (EnqueueEv tr))"
| "emit (Done d) w = Some (ReleaseEv d)"

text \<open>The auxiliary values after the event: a channel was made, or a grant was returned.\<close>

fun record_event :: "event \<Rightarrow> world \<Rightarrow> world" where
  "record_event (EnqueueEv tr) w = w\<lparr>nchan := Suc (nchan w)\<rparr>"
| "record_event (ReleaseEv d) w = w\<lparr>held := remove1 d (held w)\<rparr>"

text \<open>
  One action of a test together with the coordinator's cycle for the event it
  sends; \<open>ns\<close> is the order in which the pass of that cycle scans the queue.
\<close>

fun act :: "action \<times> string list \<Rightarrow> world \<Rightarrow> error + world" where
  "act (a, ns) w =
     (case emit a w of
        None \<Rightarrow> Inr w
      | Some ev \<Rightarrow>
          (case cycle ev ns (coord w) of
             Inl e \<Rightarrow> Inl e
           | Inr s' \<Rightarrow> Inr ((record_event ev w)\<lparr>coord := s',
                                held := new_grants (coord w) s' @ held (record_event ev w)\<rparr>)))"

fun exec :: "(action \<times> string list) list \<Rightarrow> world \<Rightarrow> error + world" where
  "exec [] w = Inr w"
| "exec (x # xs) w = (case act x w of Inl e \<Rightarrow> Inl e | Inr w' \<Rightarrow> exec xs w')"

text \<open>
  What the program's environment guarantees: a demand is a Go map (distinct
  keys), a release closure runs only for a grant that is still held, and the
  pass enumerates the keys of the queue as it is after the event.
\<close>

fun entitled :: "action \<Rightarrow> world \<Rightarrow> bool" where
  "entitled (Call t req) w = distinct (map fst req)"
| "entitled (Done d) w = (d \<in> set (held w))"

fun permitted :: "action \<times> string list \<Rightarrow> world \<Rightarrow> bool" where
  "permitted (a, ns) w =
     (entitled a w \<and>
      (case emit a w of
         None \<Rightarrow> True
       | Some ev \<Rightarrow> scan_order ns (queue (select_event ev (coord w)))))"

fun admissible :: "(action \<times> string list) list \<Rightarrow> world \<Rightarrow> bool" where
  "admissible [] w = True"
| "admissible (x # xs) w =
     (permitted x w \<and> (case act x w of Inl e \<Rightarrow> True | Inr w' \<Rightarrow> admissible xs w'))"

text \<open>Every pending demand is a Go map with no negative quantity.\<close>

definition nonneg_demands :: "state \<Rightarrow> bool" where
  "nonneg_demands s =
     list_all (\<lambda>p. distinct (map fst (required (snd p))) \<and>
                    list_all (\<lambda>e. 0 \<le> snd e) (required (snd p))) (queue s)"

text \<open>What the pass over \<open>ns\<close> from \<open>s\<close> to \<open>s'\<close> did with the entry \<open>nm\<close>, which held \<open>it\<close>.\<close>

definition granted :: "state \<Rightarrow> string \<Rightarrow> queueItem \<Rightarrow> bool" where
  "granted s' nm it = (it \<in> set (woken s') \<and> map_of (queue s') nm = None)"

definition passed_over :: "string list \<Rightarrow> state \<Rightarrow> state \<Rightarrow> string \<Rightarrow> queueItem \<Rightarrow> bool" where
  "passed_over ns s s' nm it =
     (map_of (queue s') nm = Some it \<and>
      (\<exists>ns1 ns2 s1. ns = ns1 @ nm # ns2 \<and> admission_pass ns1 s = Inr s1 \<and>
         \<not> satisfiable (unallocated s1) (required it) \<and>
         admit nm s1 = Inr s1 \<and> admission_pass ns2 s1 = Inr s'))"

text \<open>A channel that was made, is in no queue entry and has not been closed.\<close>

definition abandoned :: "chan \<Rightarrow> nat \<Rightarrow> state \<Rightarrow> bool" where
  "abandoned c n s =
     (c < n \<and> c \<notin> (\<lambda>p. wait (snd p)) ` set (queue s) \<and> c \<notin> wait ` set (woken s))"

section \<open>Fixtures\<close>

text \<open>The resource sets used by \<^verbatim>\<open>testing_test.go\<close>, and the pool of the spec's
  single-resource example.\<close>

definition resources :: ResourceSet where
  "resources = [(''cpu'', 16), (''memory'', 64)]"

definition half :: ResourceSet where
  "half = [(''cpu'', 8), (''memory'', 32)]"

definition cpu16 :: ResourceSet where
  "cpu16 = [(''cpu'', 16)]"

definition cpu8 :: ResourceSet where
  "cpu8 = [(''cpu'', 8)]"

text \<open>The world once \<^verbatim>\<open>TestSuccess1\<close> has been granted \<open>half\<close> of \<open>resources\<close>.\<close>

definition one_running :: world where
  "one_running =
     \<lparr>coord = \<lparr>available = resources, unallocated = half, queue = [],
               woken = [\<lparr>wait = 0, required = half\<rparr>]\<rparr>,
      nchan = 1, held = [half]\<rparr>"

text \<open>
  A run on the pool \<open>cpu16\<close>: \<open>H\<close> takes all of it, then \<open>A\<close>, \<open>B\<close> and \<open>C\<close> queue up;
  \<open>crowded\<close> is the world after that run and \<open>thinned\<close> the world after \<open>H\<close> releases.
\<close>

definition crowd :: "(action \<times> string list) list" where
  "crowd = [(Call ''H'' cpu16, [''H'']),
            (Call ''A'' cpu8, [''A'']),
            (Call ''B'' cpu16, [''A'', ''B'']),
            (Call ''C'' cpu8, [''A'', ''B'', ''C''])]"

definition crowded :: world where
  "crowded =
     \<lparr>coord = \<lparr>available = cpu16, unallocated = [(''cpu'', 0)],
               queue = [(''A'', \<lparr>wait = 1, required = cpu8\<rparr>),
                        (''B'', \<lparr>wait = 2, required = cpu16\<rparr>),
                        (''C'', \<lparr>wait = 3, required = cpu8\<rparr>)],
               woken = [\<lparr>wait = 0, required = cpu16\<rparr>]\<rparr>,
      nchan = 4, held = [cpu16]\<rparr>"

definition thinned :: world where
  "thinned =
     \<lparr>coord = \<lparr>available = cpu16, unallocated = [(''cpu'', 0)],
               queue = [(''B'', \<lparr>wait = 2, required = cpu16\<rparr>)],
               woken = [\<lparr>wait = 3, required = cpu8\<rparr>, \<lparr>wait = 1, required = cpu8\<rparr>,
                        \<lparr>wait = 0, required = cpu16\<rparr>]\<rparr>,
      nchan = 4, held = [cpu8, cpu8]\<rparr>"

text \<open>Two requests for the whole of \<open>cpu16\<close> pending at once.\<close>

definition both_pending :: "string \<Rightarrow> chan \<Rightarrow> string \<Rightarrow> chan \<Rightarrow> state" where
  "both_pending a ca b cb =
     \<lparr>available = cpu16, unallocated = cpu16,
      queue = [(a, \<lparr>wait = ca, required = cpu16\<rparr>), (b, \<lparr>wait = cb, required = cpu16\<rparr>)],
      woken = []\<rparr>"

text \<open>The world once \<^verbatim>\<open>TestSuccess4\<close> holds all of \<open>resources\<close>.\<close>

definition exhausted :: world where
  "exhausted =
     \<lparr>coord = \<lparr>available = resources, unallocated = [(''cpu'', 0), (''memory'', 0)],
               queue = [], woken = [\<lparr>wait = 0, required = resources\<rparr>]\<rparr>,
      nchan = 1, held = [resources]\<rparr>"

text \<open>The world once \<^verbatim>\<open>TestSuccess1\<close> has run and released.\<close>

definition idle_again :: world where
  "idle_again =
     \<lparr>coord = \<lparr>available = resources, unallocated = resources, queue = [],
               woken = [\<lparr>wait = 0, required = half\<rparr>]\<rparr>,
      nchan = 1, held = []\<rparr>"

text \<open>On the pool \<open>cpu16\<close>: \<open>H\<close> holds everything and \<open>B\<close> waits for all of it.\<close>

definition one_waiting :: world where
  "one_waiting =
     \<lparr>coord = \<lparr>available = cpu16, unallocated = [(''cpu'', 0)],
               queue = [(''B'', \<lparr>wait = 1, required = cpu16\<rparr>)],
               woken = [\<lparr>wait = 0, required = cpu16\<rparr>]\<rparr>,
      nchan = 2, held = [cpu16]\<rparr>"

section \<open>Invariants of a run\<close>

text \<open>
  A demand that passed the check of \<open>Parallel\<close> against the capacity \<open>cap\<close>
  names only resource types of \<open>cap\<close>.
\<close>

definition demand_ok :: "ResourceSet \<Rightarrow> ResourceSet \<Rightarrow> bool" where
  "demand_ok cap d = (distinct (map fst d) \<and> fst ` set d \<subseteq> fst ` set cap)"

definition pool_inv :: "ResourceSet \<Rightarrow> state \<Rightarrow> bool" where
  "pool_inv cap s =
     (available s = cap \<and> distinct (map fst cap) \<and>
      map fst (unallocated s) = map fst cap \<and>
      distinct (map fst (queue s)) \<and>
      (\<forall>p \<in> set (queue s). demand_ok cap (required (snd p))))"

definition chan_inv :: "nat \<Rightarrow> state \<Rightarrow> bool" where
  "chan_inv n s =
     (distinct (map (\<lambda>p. wait (snd p)) (queue s)) \<and>
      (\<forall>p \<in> set (queue s). wait (snd p) < n \<and> wait (snd p) \<notin> wait ` set (woken s)) \<and>
      (\<forall>it \<in> set (woken s). wait it < n))"

text \<open>The part of a demand list that counts against resource type \<open>k\<close>.\<close>

definition total_of :: "ResourceSet list \<Rightarrow> string \<Rightarrow> int" where
  "total_of ds k = sum_list (map (\<lambda>d. lookup0 d k) ds)"

text \<open>What a stretch of the pass from \<open>s\<close> to \<open>s'\<close> that woke \<open>new\<close> preserves.\<close>

definition advance :: "ResourceSet \<Rightarrow> nat \<Rightarrow> state \<Rightarrow> state \<Rightarrow> queueItem list \<Rightarrow> bool" where
  "advance cap n s s' new =
     (pool_inv cap s' \<and> chan_inv n s' \<and> woken s' = new @ woken s \<and>
      (\<forall>it \<in> set new. demand_ok cap (required it)) \<and>
      (\<forall>k. lookup0 (unallocated s') k + total_of (map required new) k = lookup0 (unallocated s) k))"

definition world_inv :: "ResourceSet \<Rightarrow> world \<Rightarrow> bool" where
  "world_inv cap w =
     (pool_inv cap (coord w) \<and> chan_inv (nchan w) (coord w) \<and>
      (\<forall>d \<in> set (held w). demand_ok cap d) \<and>
      (\<forall>k. lookup0 (unallocated (coord w)) k + total_of (held w) k = lookup0 cap k))"

section \<open>Resource sets\<close>


lemma lookup0_update: "lookup0 (AList.update k v u) x = (if x = k then v else lookup0 u x)"
  by (simp add: lookup0_def update_conv')

lemma lookup0_absent: "k \<notin> fst ` set m \<Longrightarrow> lookup0 m k = 0"
  by (simp add: lookup0_def map_of_eq_None_iff [THEN iffD2])

lemma lookup0_Cons: "lookup0 ((k, v) # m) x = (if x = k then v else lookup0 m x)"
  by (simp add: lookup0_def)

lemma lookup0_Nil: "lookup0 [] x = 0"
  by (simp add: lookup0_def)

lemma lookup0_present: "distinct (map fst m) \<Longrightarrow> (k, v) \<in> set m \<Longrightarrow> lookup0 m k = v"
  by (simp add: lookup0_def)

lemma keys_update_present: "k \<in> fst ` set u \<Longrightarrow> map fst (AList.update k v u) = map fst u"
  by (simp add: update_keys)

lemma satisfiable_iff: "satisfiable u req \<longleftrightarrow> (\<forall>(k, v) \<in> set req. v \<le> lookup0 u k)"
  by (auto simp: satisfiable_def list_all_iff)

lemma take_out_Nil: "take_out [] u = u"
  by (simp add: take_out_def)

lemma take_out_Cons: "take_out ((k, v) # req) u = take_out req (AList.update k (lookup0 u k - v) u)"
  by (simp add: take_out_def)

lemma give_back_Nil: "give_back [] u = u"
  by (simp add: give_back_def)

lemma give_back_Cons: "give_back ((k, v) # d) u = give_back d (AList.update k (lookup0 u k + v) u)"
  by (simp add: give_back_def)

lemma lookup0_take_out:
  "distinct (map fst req) \<Longrightarrow> lookup0 (take_out req u) x = lookup0 u x - lookup0 req x"
proof (induction req arbitrary: u)
  case Nil
  show ?case by (simp add: take_out_Nil lookup0_Nil)
next
  case (Cons p req)
  obtain k v where p: "p = (k, v)" by (cases p)
  from Cons.prems p have notin: "k \<notin> fst ` set req" and d: "distinct (map fst req)" by auto
  show ?case
    using Cons.IH [OF d, of "AList.update k (lookup0 u k - v) u"] lookup0_absent [OF notin]
    by (simp add: p take_out_Cons lookup0_update lookup0_Cons)
qed

lemma lookup0_give_back:
  "distinct (map fst d) \<Longrightarrow> lookup0 (give_back d u) x = lookup0 u x + lookup0 d x"
proof (induction d arbitrary: u)
  case Nil
  show ?case by (simp add: give_back_Nil lookup0_Nil)
next
  case (Cons p d)
  obtain k v where p: "p = (k, v)" by (cases p)
  from Cons.prems p have notin: "k \<notin> fst ` set d" and dd: "distinct (map fst d)" by auto
  show ?case
    using Cons.IH [OF dd, of "AList.update k (lookup0 u k + v) u"] lookup0_absent [OF notin]
    by (simp add: p give_back_Cons lookup0_update lookup0_Cons)
qed

lemma keys_take_out:
  "fst ` set req \<subseteq> fst ` set u \<Longrightarrow> map fst (take_out req u) = map fst u"
proof (induction req arbitrary: u)
  case Nil
  show ?case by (simp add: take_out_Nil)
next
  case (Cons p req)
  obtain k v where p: "p = (k, v)" by (cases p)
  from Cons.prems p have k: "k \<in> fst ` set u" and r: "fst ` set req \<subseteq> fst ` set u" by auto
  have m: "map fst (AList.update k (lookup0 u k - v) u) = map fst u"
    using k by (rule keys_update_present)
  then have "fst ` set (AList.update k (lookup0 u k - v) u) = fst ` set u"
    by (metis list.set_map)
  with r Cons.IH [of "AList.update k (lookup0 u k - v) u"] m show ?case
    by (simp add: p take_out_Cons)
qed

lemma keys_give_back:
  "fst ` set d \<subseteq> fst ` set u \<Longrightarrow> map fst (give_back d u) = map fst u"
proof (induction d arbitrary: u)
  case Nil
  show ?case by (simp add: give_back_Nil)
next
  case (Cons p d)
  obtain k v where p: "p = (k, v)" by (cases p)
  from Cons.prems p have k: "k \<in> fst ` set u" and r: "fst ` set d \<subseteq> fst ` set u" by auto
  have m: "map fst (AList.update k (lookup0 u k + v) u) = map fst u"
    using k by (rule keys_update_present)
  then have "fst ` set (AList.update k (lookup0 u k + v) u) = fst ` set u"
    by (metis list.set_map)
  with r Cons.IH [of "AList.update k (lookup0 u k + v) u"] m show ?case
    by (simp add: p give_back_Cons)
qed

lemma alist_eqI:
  "map fst a = map fst b \<Longrightarrow> distinct (map fst a) \<Longrightarrow> (\<forall>k. lookup0 a k = lookup0 b k) \<Longrightarrow> a = (b::ResourceSet)"
proof (induction a arbitrary: b)
  case Nil
  then show ?case by simp
next
  case (Cons p a)
  obtain k v where p: "p = (k, v)" by (cases p)
  from Cons.prems(1) obtain q b' where b: "b = q # b'" by (cases b) auto
  obtain k' v' where q: "q = (k', v')" by (cases q)
  from Cons.prems(1) p b q have kk: "k' = k" and keys: "map fst a = map fst b'" by auto
  from Cons.prems(2) p have notin: "k \<notin> fst ` set a" and da: "distinct (map fst a)" by auto
  from Cons.prems(3) [rule_format, of k] have vv: "v' = v"
    by (simp add: p b q kk lookup0_Cons)
  have "lookup0 a x = lookup0 b' x" for x
  proof (cases "x = k")
    case True
    have "k \<notin> fst ` set b'" using notin keys by (metis list.set_map)
    then show ?thesis using notin True by (simp add: lookup0_absent)
  next
    case False
    with Cons.prems(3) [rule_format, of x] show ?thesis
      by (simp add: p b q kk lookup0_Cons)
  qed
  with Cons.IH [OF keys da] have "a = b'" by simp
  then show ?case by (simp add: p b q kk vv)
qed

lemma give_back_take_out:
  assumes "distinct (map fst d)" and "distinct (map fst u)" and "fst ` set d \<subseteq> fst ` set u"
  shows "give_back d (take_out d u) = u"
proof (rule alist_eqI)
  have k1: "map fst (take_out d u) = map fst u" using assms(3) by (rule keys_take_out)
  then have "fst ` set (take_out d u) = fst ` set u" by (metis list.set_map)
  with assms(3) have "fst ` set d \<subseteq> fst ` set (take_out d u)" by simp
  then have k2: "map fst (give_back d (take_out d u)) = map fst (take_out d u)"
    by (rule keys_give_back)
  show "map fst (give_back d (take_out d u)) = map fst u" using k1 k2 by simp
  then show "distinct (map fst (give_back d (take_out d u)))" using assms(2) by simp
  show "\<forall>k. lookup0 (give_back d (take_out d u)) k = lookup0 u k"
    by (simp add: lookup0_give_back lookup0_take_out assms(1))
qed


section \<open>Start and the admission pass\<close>

lemma update_absent: "k \<notin> fst ` set u \<Longrightarrow> AList.update k v u = u @ [(k, v)]"
  by (induction u) auto

lemma fold_update_fresh:
  "distinct (map fst cap) \<Longrightarrow> fst ` set cap \<inter> fst ` set u = {} \<Longrightarrow>
   fold (\<lambda>(k, v) u. AList.update k v u) cap u = u @ cap"
proof (induction cap arbitrary: u)
  case Nil
  show ?case by simp
next
  case (Cons p cap)
  obtain k v where p: "p = (k, v)" by (cases p)
  from Cons.prems p have k: "k \<notin> fst ` set u" and d: "distinct (map fst cap)"
    and kc: "k \<notin> fst ` set cap" and disj: "fst ` set cap \<inter> fst ` set u = {}" by auto
  have "fst ` set cap \<inter> fst ` set (u @ [(k, v)]) = {}" using kc disj by auto
  with Cons.IH [OF d, of "u @ [(k, v)]"] show ?case
    by (simp add: p update_absent [OF k])
qed

lemma Start_init: "distinct (map fst cap) \<Longrightarrow>
  Start cap init = \<lparr>available = cap, unallocated = cap, queue = [], woken = []\<rparr>"
  using fold_update_fresh [of cap "[]"] by (simp add: Start_def init_def)

lemma total_of_Nil: "total_of [] k = 0"
  by (simp add: total_of_def)

lemma total_of_Cons: "total_of (d # ds) k = lookup0 d k + total_of ds k"
  by (simp add: total_of_def)

lemma total_of_append: "total_of (xs @ ys) k = total_of xs k + total_of ys k"
  by (simp add: total_of_def)

lemma total_of_remove1: "d \<in> set ds \<Longrightarrow> total_of (remove1 d ds) k = total_of ds k - lookup0 d k"
  by (induction ds) (auto simp: total_of_Cons)

lemma advance_refl: "pool_inv cap s \<Longrightarrow> chan_inv n s \<Longrightarrow> advance cap n s s []"
  by (simp add: advance_def total_of_Nil)

lemma advance_trans:
  "advance cap n s s1 new1 \<Longrightarrow> advance cap n s1 s2 new2 \<Longrightarrow> advance cap n s s2 (new2 @ new1)"
  unfolding advance_def
  apply (intro conjI)
      apply simp
     apply simp
    apply simp
   apply auto[1]
  apply (simp add: total_of_append)
  apply (intro allI)
  subgoal for k
    apply (elim conjE)
    apply (drule spec [of _ k])+
    apply simp
    done
  done

lemma admit_absent: "map_of (queue s) nm = None \<Longrightarrow> admit nm s = Inr s"
  by (simp add: admit_def)

lemma admit_unfit:
  "map_of (queue s) nm = Some it \<Longrightarrow> \<not> satisfiable (unallocated s) (required it) \<Longrightarrow>
   admit nm s = Inr s"
  by (simp add: admit_def)

lemma admit_fit:
  "map_of (queue s) nm = Some it \<Longrightarrow> satisfiable (unallocated s) (required it) \<Longrightarrow>
   wait it \<notin> wait ` set (woken s) \<Longrightarrow>
   admit nm s = Inr (s\<lparr>unallocated := take_out (required it) (unallocated s),
                        queue := AList.delete nm (queue s),
                        woken := it # woken s\<rparr>)"
  by (simp add: admit_def)

lemma queued_open:
  "chan_inv n s \<Longrightarrow> map_of (queue s) nm = Some it \<Longrightarrow> wait it \<notin> wait ` set (woken s)"
proof -
  assume c: "chan_inv n s" and m: "map_of (queue s) nm = Some it"
  from m have "(nm, it) \<in> set (queue s)" by (rule map_of_SomeD)
  with c show ?thesis by (auto simp: chan_inv_def)
qed

lemma set_delete_subset: "set (AList.delete k al) \<subseteq> set al"
  by (auto simp: AList.delete_eq)

lemma distinct_map_filter_wait:
  "distinct (map (\<lambda>p. wait (snd p)) q) \<Longrightarrow> distinct (map (\<lambda>p. wait (snd p)) (AList.delete k q))"
  by (simp add: AList.delete_eq distinct_map_filter)

lemma wait_removed:
  assumes d: "distinct (map (\<lambda>p. wait (snd p)) q)" and m: "map_of q nm = Some it"
    and x: "(k, x) \<in> set (AList.delete nm q)"
  shows "wait x \<noteq> wait it"
proof
  assume e: "wait x = wait it"
  from x have k: "(k, x) \<in> set q" "k \<noteq> nm" by (auto simp: AList.delete_eq)
  from m have i: "(nm, it) \<in> set q" by (rule map_of_SomeD)
  from d have "inj_on (\<lambda>p. wait (snd p)) (set q)" by (simp add: distinct_map)
  from inj_onD [OF this _ k(1) i] e have "(k, x) = (nm, it)" by simp
  with k(2) show False by simp
qed

lemma chan_inv_grant:
  assumes c: "chan_inv n s" and m: "map_of (queue s) nm = Some it"
  shows "chan_inv n (s\<lparr>unallocated := u', queue := AList.delete nm (queue s),
                        woken := it # woken s\<rparr>)"
proof -
  let ?s' = "s\<lparr>unallocated := u', queue := AList.delete nm (queue s), woken := it # woken s\<rparr>"
  from m have mem: "(nm, it) \<in> set (queue s)" by (rule map_of_SomeD)
  have sd: "set (AList.delete nm (queue s)) \<subseteq> set (queue s)"
    by (rule set_delete_subset)
  from c have dq: "distinct (map (\<lambda>p. wait (snd p)) (queue s))" by (simp add: chan_inv_def)
  from c mem have lt: "wait it < n" by (auto simp: chan_inv_def)
  show ?thesis
    unfolding chan_inv_def
  proof (intro conjI ballI)
    show "distinct (map (\<lambda>p. wait (snd p)) (queue ?s'))"
      using dq by (simp add: distinct_map_filter_wait)
  next
    fix p assume x: "p \<in> set (queue ?s')"
    then have x': "(fst p, snd p) \<in> set (AList.delete nm (queue s))" by simp
    with sd have xq: "p \<in> set (queue s)" by auto
    with c have lo: "wait (snd p) < n \<and> wait (snd p) \<notin> wait ` set (woken s)"
      by (auto simp: chan_inv_def)
    moreover have "wait (snd p) \<noteq> wait it" using dq m x' by (rule wait_removed)
    ultimately have both: "wait (snd p) < n \<and> wait (snd p) \<notin> wait ` set (woken ?s')" by simp
    from both show "wait (snd p) < n" ..
    from both show "wait (snd p) \<notin> wait ` set (woken ?s')" ..
  next
    fix x assume "x \<in> set (woken ?s')"
    with c lt show "wait x < n" by (auto simp: chan_inv_def)
  qed
qed

lemma admit_fit_advance:
  assumes p: "pool_inv cap s" and c: "chan_inv n s"
    and m: "map_of (queue s) nm = Some it" and f: "satisfiable (unallocated s) (required it)"
  shows "advance cap n s
           (s\<lparr>unallocated := take_out (required it) (unallocated s),
              queue := AList.delete nm (queue s), woken := it # woken s\<rparr>) [it]"
proof -
  let ?s' = "s\<lparr>unallocated := take_out (required it) (unallocated s),
              queue := AList.delete nm (queue s), woken := it # woken s\<rparr>"
  from m have mem: "(nm, it) \<in> set (queue s)" by (rule map_of_SomeD)
  with p have dok: "demand_ok cap (required it)" by (auto simp: pool_inv_def)
  from p have keys: "map fst (unallocated s) = map fst cap" by (simp add: pool_inv_def)
  then have "fst ` set (unallocated s) = fst ` set cap" by (metis list.set_map)
  with dok have sub: "fst ` set (required it) \<subseteq> fst ` set (unallocated s)"
    by (simp add: demand_ok_def)
  have sd: "set (AList.delete nm (queue s)) \<subseteq> set (queue s)"
    by (rule set_delete_subset)
  have P: "pool_inv cap ?s'"
    using p sd keys_take_out [OF sub]
    by (auto simp: pool_inv_def distinct_delete)
  have C: "chan_inv n ?s'"
    using c m by (rule chan_inv_grant)
  from dok have "distinct (map fst (required it))" by (simp add: demand_ok_def)
  then have L: "\<forall>k. lookup0 (unallocated ?s') k + total_of (map required [it]) k
                  = lookup0 (unallocated s) k"
    by (simp add: lookup0_take_out total_of_Cons total_of_Nil)
  show ?thesis
    unfolding advance_def using P C dok L by simp
qed

lemma admit_advance:
  assumes p: "pool_inv cap s" and c: "chan_inv n s"
  shows "\<exists>s' new. admit nm s = Inr s' \<and> advance cap n s s' new"
proof (cases "map_of (queue s) nm")
  case None
  then show ?thesis using advance_refl [OF p c] admit_absent by blast
next
  case (Some it)
  show ?thesis
  proof (cases "satisfiable (unallocated s) (required it)")
    case False
    with Some show ?thesis using advance_refl [OF p c] admit_unfit by blast
  next
    case True
    from admit_fit [OF Some True queued_open [OF c Some]]
      admit_fit_advance [OF p c Some True]
    show ?thesis by blast
  qed
qed

lemma pass_advance:
  "pool_inv cap s \<Longrightarrow> chan_inv n s \<Longrightarrow>
   \<exists>s' new. admission_pass ns s = Inr s' \<and> advance cap n s s' new"
proof (induction ns arbitrary: s)
  case Nil
  then show ?case using advance_refl by auto
next
  case (Cons nm ns)
  from admit_advance [OF Cons.prems] obtain s1 new1
    where a: "admit nm s = Inr s1" and adv1: "advance cap n s s1 new1" by blast
  from adv1 have "pool_inv cap s1" "chan_inv n s1" by (simp_all add: advance_def)
  from Cons.IH [OF this] obtain s2 new2
    where b: "admission_pass ns s1 = Inr s2" and adv2: "advance cap n s1 s2 new2" by blast
  from advance_trans [OF adv1 adv2] a b show ?case by auto
qed


section \<open>Runs of the whole program\<close>

lemma set_update_subset: "set (AList.update k v al) \<subseteq> insert (k, v) (set al)"
  by (induction al) auto

lemma distinct_wait_update:
  "distinct (map (\<lambda>p. wait (snd p)) q) \<Longrightarrow> wait v \<notin> (\<lambda>p. wait (snd p)) ` set q \<Longrightarrow>
   distinct (map (\<lambda>p. wait (snd p)) (AList.update k v q))"
proof (induction q)
  case Nil
  show ?case by simp
next
  case (Cons p q)
  show ?case
  proof (cases "fst p = k")
    case True
    with Cons.prems show ?thesis by simp
  next
    case False
    from Cons.prems have d: "distinct (map (\<lambda>p. wait (snd p)) q)"
      and v: "wait v \<notin> (\<lambda>p. wait (snd p)) ` set q" and pv: "wait (snd p) \<noteq> wait v"
      and pq: "wait (snd p) \<notin> (\<lambda>p. wait (snd p)) ` set q" by auto
    have "wait (snd p) \<notin> (\<lambda>p. wait (snd p)) ` set (AList.update k v q)"
      using set_update_subset [of k v q] pv pq by auto
    with Cons.IH [OF d v] False show ?thesis by simp
  qed
qed

lemma Parallel_Submit:
  "Parallel s t c req = Submit tr \<Longrightarrow>
   tr = \<lparr>name = t, item = \<lparr>wait = c, required = req\<rparr>\<rparr> \<and> fst ` set req \<subseteq> fst ` set (available s)"
proof -
  assume a: "Parallel s t c req = Submit tr"
  then have n: "\<not> list_ex (\<lambda>(k, v). case map_of (available s) k of
                              None \<Rightarrow> True | Some a \<Rightarrow> v > a) req"
    and tr: "tr = \<lparr>name = t, item = \<lparr>wait = c, required = req\<rparr>\<rparr>"
    by (auto simp: Parallel_def split: if_splits)
  have "fst ` set req \<subseteq> fst ` set (available s)"
  proof
    fix k assume "k \<in> fst ` set req"
    then obtain v where "(k, v) \<in> set req" by auto
    with n have "map_of (available s) k \<noteq> None"
      by (auto simp: list_ex_iff split: option.splits)
    then show "k \<in> fst ` set (available s)" by (simp add: map_of_eq_None_iff)
  qed
  with tr show ?thesis by simp
qed

lemma enqueue_chan_inv:
  assumes c: "chan_inv n s"
  shows "chan_inv (Suc n)
           (select_event (EnqueueEv \<lparr>name = t, item = \<lparr>wait = n, required = req\<rparr>\<rparr>) s)"
proof -
  let ?it = "\<lparr>wait = n, required = req\<rparr>"
  let ?s1 = "select_event (EnqueueEv \<lparr>name = t, item = ?it\<rparr>) s"
  let ?q = "AList.update t ?it (queue s)"
  have sq: "set ?q \<subseteq> insert (t, ?it) (set (queue s))"
    by (rule set_update_subset)
  from c have fresh: "wait ?it \<notin> (\<lambda>p. wait (snd p)) ` set (queue s)"
    by (auto simp: chan_inv_def)
  from c have dq: "distinct (map (\<lambda>p. wait (snd p)) (queue s))" by (simp add: chan_inv_def)
  have dq': "distinct (map (\<lambda>p. wait (snd p)) ?q)"
    using dq fresh by (rule distinct_wait_update)
  show ?thesis
    unfolding chan_inv_def
  proof (intro conjI ballI)
    show "distinct (map (\<lambda>p. wait (snd p)) (queue ?s1))"
      using dq' by simp
  next
    fix x assume "x \<in> set (queue ?s1)"
    then have "x \<in> insert (t, ?it) (set (queue s))"
      using sq by auto
    then have both: "wait (snd x) < Suc n \<and> wait (snd x) \<notin> wait ` set (woken s)"
      using c by (fastforce simp: chan_inv_def)
    from both show "wait (snd x) < Suc n" ..
    from both show "wait (snd x) \<notin> wait ` set (woken ?s1)"
      by simp
  next
    fix x assume "x \<in> set (woken ?s1)"
    with c show "wait x < Suc n" by (fastforce simp: chan_inv_def)
  qed
qed

lemma enqueue_inv:
  assumes p: "pool_inv cap s" and c: "chan_inv n s"
    and P: "Parallel s t n req = Submit tr" and d: "distinct (map fst req)"
  shows "pool_inv cap (select_event (EnqueueEv tr) s) \<and> chan_inv (Suc n) (select_event (EnqueueEv tr) s)"
proof -
  from Parallel_Submit [OF P] have tr: "tr = \<lparr>name = t, item = \<lparr>wait = n, required = req\<rparr>\<rparr>"
    and sub: "fst ` set req \<subseteq> fst ` set (available s)" by simp_all
  from p have av: "available s = cap" by (simp add: pool_inv_def)
  from sub d av have dok: "demand_ok cap req" by (simp add: demand_ok_def)
  let ?q = "AList.update t \<lparr>wait = n, required = req\<rparr> (queue s)"
  have sq: "set ?q \<subseteq> insert (t, \<lparr>wait = n, required = req\<rparr>) (set (queue s))"
    by (rule set_update_subset)
  have P': "pool_inv cap (select_event (EnqueueEv tr) s)"
    using p dok sq by (auto simp: pool_inv_def tr distinct_update)
  have C': "chan_inv (Suc n) (select_event (EnqueueEv tr) s)"
    unfolding tr using c by (rule enqueue_chan_inv)
  from P' C' show ?thesis ..
qed

lemma release_inv:
  assumes p: "pool_inv cap s" and c: "chan_inv n s" and dok: "demand_ok cap d"
  shows "pool_inv cap (select_event (ReleaseEv d) s) \<and> chan_inv n (select_event (ReleaseEv d) s)"
proof -
  from p have keys: "map fst (unallocated s) = map fst cap" by (simp add: pool_inv_def)
  then have "fst ` set (unallocated s) = fst ` set cap" by (metis list.set_map)
  with dok have "fst ` set d \<subseteq> fst ` set (unallocated s)" by (simp add: demand_ok_def)
  from keys_give_back [OF this] p have "pool_inv cap (select_event (ReleaseEv d) s)"
    by (simp add: pool_inv_def)
  moreover from c have "chan_inv n (select_event (ReleaseEv d) s)" by (simp add: chan_inv_def)
  ultimately show ?thesis ..
qed

lemma event_inv:
  assumes wi: "world_inv cap w" and en: "entitled a w" and em: "emit a w = Some ev"
  shows "pool_inv cap (select_event ev (coord w)) \<and>
         chan_inv (nchan (record_event ev w)) (select_event ev (coord w)) \<and>
         (\<forall>d \<in> set (held (record_event ev w)). demand_ok cap d) \<and>
         (\<forall>k. lookup0 (unallocated (select_event ev (coord w))) k + total_of (held (record_event ev w)) k
               = lookup0 cap k) \<and>
         woken (select_event ev (coord w)) = woken (coord w)"
proof -
  from wi have p: "pool_inv cap (coord w)" and c: "chan_inv (nchan w) (coord w)"
    and hd: "\<forall>d \<in> set (held w). demand_ok cap d"
    and eq: "\<forall>k. lookup0 (unallocated (coord w)) k + total_of (held w) k = lookup0 cap k"
    by (simp_all add: world_inv_def)
  show ?thesis
  proof (cases a)
    case (Call t req)
    from em obtain tr where Submit: "Parallel (coord w) t (nchan w) req = Submit tr"
      and ev: "ev = EnqueueEv tr"
      by (auto simp: Call split: outcome.splits)
    from en have d: "distinct (map fst req)" by (simp add: Call)
    from enqueue_inv [OF p c Submit d] hd eq show ?thesis by (simp add: ev)
  next
    case (Done d)
    from em have ev: "ev = ReleaseEv d" by (simp add: Done)
    from en have dh: "d \<in> set (held w)" by (simp add: Done)
    with hd have dok: "demand_ok cap d" by simp
    then have dd: "distinct (map fst d)" by (simp add: demand_ok_def)
    have h': "\<forall>d' \<in> set (remove1 d (held w)). demand_ok cap d'"
      using hd by (meson notin_set_remove1)
    have "\<forall>k. lookup0 (give_back d (unallocated (coord w))) k + total_of (remove1 d (held w)) k
               = lookup0 cap k"
      using eq by (simp add: lookup0_give_back [OF dd] total_of_remove1 [OF dh])
    with release_inv [OF p c dok] h' show ?thesis by (simp add: ev)
  qed
qed

lemma act_inv:
  assumes wi: "world_inv cap w" and pm: "permitted x w"
  shows "\<exists>w'. act x w = Inr w' \<and> world_inv cap w'"
proof -
  obtain a ns where x: "x = (a, ns)" by (cases x)
  show ?thesis
  proof (cases "emit a w")
    case None
    with wi show ?thesis by (simp add: x)
  next
    case (Some ev)
    let ?s1 = "select_event ev (coord w)"
    from pm have en: "entitled a w" by (simp add: x)
    from event_inv [OF wi en Some]
    have p1: "pool_inv cap ?s1" and c1: "chan_inv (nchan (record_event ev w)) ?s1"
      and h1: "\<forall>d \<in> set (held (record_event ev w)). demand_ok cap d"
      and e1: "\<forall>k. lookup0 (unallocated ?s1) k + total_of (held (record_event ev w)) k = lookup0 cap k"
      and w1: "woken ?s1 = woken (coord w)"
      by simp_all
    from pass_advance [OF p1 c1, of ns] obtain s' new
      where run: "admission_pass ns ?s1 = Inr s'"
        and adv: "advance cap (nchan (record_event ev w)) ?s1 s' new" by blast
    have cy: "cycle ev ns (coord w) = Inr s'"
      using run by (simp only: cycle_def)
    have ng: "new_grants (coord w) s' = map required new"
      using adv w1 by (simp add: advance_def new_grants_def)
    let ?w' = "(record_event ev w)\<lparr>coord := s', held := map required new @ held (record_event ev w)\<rparr>"
    have a: "act x w = Inr ?w'"
      by (simp add: x Some cy ng)
    have n': "nchan ?w' = nchan (record_event ev w)" by simp
    have "\<forall>k. lookup0 (unallocated s') k + total_of (map required new @ held (record_event ev w)) k
              = lookup0 cap k"
    proof
      fix k
      from adv have "lookup0 (unallocated s') k + total_of (map required new) k
          = lookup0 (unallocated ?s1) k"
        by (simp add: advance_def)
      with e1 [rule_format, of k]
      show "lookup0 (unallocated s') k + total_of (map required new @ held (record_event ev w)) k
              = lookup0 cap k"
        by (simp add: total_of_append)
    qed
    with adv h1 have "world_inv cap ?w'"
      by (auto simp: world_inv_def advance_def)
    with a show ?thesis by blast
  qed
qed

lemma exec_inv:
  "world_inv cap w \<Longrightarrow> admissible xs w \<Longrightarrow> \<exists>w'. exec xs w = Inr w' \<and> world_inv cap w'"
proof (induction xs arbitrary: w)
  case Nil
  then show ?case by simp
next
  case (Cons x xs)
  from Cons.prems have pm: "permitted x w" by simp
  from act_inv [OF Cons.prems(1) pm] obtain w1
    where a: "act x w = Inr w1" and wi: "world_inv cap w1" by blast
  from Cons.prems(2) a have "admissible xs w1" by simp
  from Cons.IH [OF wi this] a show ?case by simp
qed

lemma boot_inv: "distinct (map fst cap) \<Longrightarrow> world_inv cap (boot cap)"
  by (simp add: world_inv_def boot_def Start_init pool_inv_def chan_inv_def total_of_Nil)

lemma exec_append:
  "exec (xs @ ys) w = (case exec xs w of Inl e \<Rightarrow> Inl e | Inr w' \<Rightarrow> exec ys w')"
  by (induction xs arbitrary: w) (auto split: sum.splits)

lemma admissible_append:
  "admissible (xs @ ys) w \<Longrightarrow> admissible xs w \<and> (\<forall>w'. exec xs w = Inr w' \<longrightarrow> admissible ys w')"
  by (induction xs arbitrary: w) (auto split: sum.splits)

section \<open>The capacity map is a frame\<close>

lemma available_admit: "admit nm s = Inr s' \<Longrightarrow> available s' = available s"
  by (auto simp: admit_def split: option.splits if_splits)

lemma available_pass: "admission_pass ns s = Inr s' \<Longrightarrow> available s' = available s"
proof (induction ns arbitrary: s)
  case Nil
  then show ?case by simp
next
  case (Cons nm ns)
  from Cons.prems obtain s1 where a: "admit nm s = Inr s1" and b: "admission_pass ns s1 = Inr s'"
    by (auto split: sum.splits)
  from Cons.IH [OF b] available_admit [OF a] show ?case by simp
qed

lemma available_select: "available (select_event ev s) = available s"
  by (cases ev) simp_all

lemma available_cycle: "cycle ev ns s = Inr s' \<Longrightarrow> available s' = available s"
  using available_pass [of ns "select_event ev s" s'] by (simp add: cycle_def available_select)

lemma available_act: "act x w = Inr w' \<Longrightarrow> available (coord w') = available (coord w)"
proof -
  assume a: "act x w = Inr w'"
  obtain b ns where x: "x = (b, ns)" by (cases x)
  show ?thesis
  proof (cases "emit b w")
    case None
    with a show ?thesis by (simp add: x)
  next
    case (Some ev)
    with a obtain s' where c: "cycle ev ns (coord w) = Inr s'" and w': "coord w' = s'"
      by (auto simp: x split: sum.splits)
    from available_cycle [OF c] w' show ?thesis by simp
  qed
qed

lemma available_exec: "exec xs w = Inr w' \<Longrightarrow> available (coord w') = available (coord w)"
proof (induction xs arbitrary: w)
  case Nil
  then show ?case by simp
next
  case (Cons x xs)
  from Cons.prems obtain w1 where a: "act x w = Inr w1" and b: "exec xs w1 = Inr w'"
    by (auto split: sum.splits)
  from Cons.IH [OF b] available_act [OF a] show ?case by simp
qed

lemma available_boot: "available (coord (boot cap)) = cap"
  by (simp add: boot_def Start_def)

lemma admit_ignores_available:
  "admit nm (s\<lparr>available := a\<rparr>) =
     (case admit nm s of Inl e \<Rightarrow> Inl e | Inr s' \<Rightarrow> Inr (s'\<lparr>available := a\<rparr>))"
  by (simp add: admit_def split: option.splits)

lemma pass_ignores_available:
  "admission_pass ns (s\<lparr>available := a\<rparr>) =
     (case admission_pass ns s of Inl e \<Rightarrow> Inl e | Inr s' \<Rightarrow> Inr (s'\<lparr>available := a\<rparr>))"
proof (induction ns arbitrary: s)
  case Nil
  show ?case by simp
next
  case (Cons nm ns)
  show ?case
    by (cases "admit nm s") (simp_all add: admit_ignores_available Cons.IH)
qed

lemma select_ignores_available:
  "select_event ev (s\<lparr>available := a\<rparr>) = (select_event ev s)\<lparr>available := a\<rparr>"
  by (cases ev) simp_all

lemma Parallel_iff:
  "Parallel s t c req = Skip \<longleftrightarrow>
     (\<exists>(k, v) \<in> set req. map_of (available s) k = None \<or> v > lookup0 (available s) k)"
proof -
  have "(case map_of (available s) k of None \<Rightarrow> True | Some a \<Rightarrow> v > a)
          = (map_of (available s) k = None \<or> v > lookup0 (available s) k)" for k v
    by (simp add: lookup0_def split: option.splits)
  then show ?thesis
    by (simp add: Parallel_def list_ex_iff case_prod_unfold)
qed

section \<open>One entry of the pass\<close>

lemma admit_keeps:
  "admit k s = Inr s' \<Longrightarrow> nm \<noteq> k \<Longrightarrow> map_of (queue s') nm = map_of (queue s) nm"
  by (auto simp: admit_def split: option.splits if_splits)

lemma pass_keeps:
  "admission_pass ns s = Inr s' \<Longrightarrow> nm \<notin> set ns \<Longrightarrow> map_of (queue s') nm = map_of (queue s) nm"
proof (induction ns arbitrary: s)
  case Nil
  then show ?case by simp
next
  case (Cons k ns)
  from Cons.prems(1) obtain s1 where a: "admit k s = Inr s1" and b: "admission_pass ns s1 = Inr s'"
    by (auto split: sum.splits)
  from Cons.prems(2) have "nm \<noteq> k" "nm \<notin> set ns" by auto
  with Cons.IH [OF b] admit_keeps [OF a] show ?case by simp
qed

text \<open>The state in which the pass of the next cycle reaches the entry \<open>nm\<close>.\<close>

lemma reach_entry:
  assumes cap: "distinct (map fst cap)"
    and adm: "admissible sched (boot cap)" and run: "exec sched (boot cap) = Inr w"
    and pm: "permitted (a, ns1 @ nm # ns2) w" and em: "emit a w = Some ev"
  shows "\<exists>s it. admission_pass ns1 (select_event ev (coord w)) = Inr s \<and>
           map_of (queue s) nm = Some it \<and> pool_inv cap s \<and>
           chan_inv (nchan (record_event ev w)) s \<and> demand_ok cap (required it)"
proof -
  from exec_inv [OF boot_inv [OF cap] adm] run have wi: "world_inv cap w" by simp
  let ?s1 = "select_event ev (coord w)"
  from pm have en: "entitled a w" by simp
  from pm em have so: "scan_order (ns1 @ nm # ns2) (queue ?s1)" by simp
  from event_inv [OF wi en em]
  have p1: "pool_inv cap ?s1" and c1: "chan_inv (nchan (record_event ev w)) ?s1" by simp_all
  from pass_advance [OF p1 c1, of ns1] obtain s new
    where pass: "admission_pass ns1 ?s1 = Inr s"
      and adv: "advance cap (nchan (record_event ev w)) ?s1 s new" by blast
  from so have notin: "nm \<notin> set ns1" and key: "nm \<in> fst ` set (queue ?s1)"
    by (auto simp: scan_order_def)
  from key obtain it where "map_of (queue ?s1) nm = Some it"
    by (metis map_of_eq_None_iff not_Some_eq)
  with pass_keeps [OF pass notin] have m: "map_of (queue s) nm = Some it" by simp
  from adv have p: "pool_inv cap s" and c: "chan_inv (nchan (record_event ev w)) s"
    by (simp_all add: advance_def)
  from m have "(nm, it) \<in> set (queue s)" by (rule map_of_SomeD)
  with p have "demand_ok cap (required it)" by (auto simp: pool_inv_def)
  with pass m p c show ?thesis by blast
qed

lemma pool_keys: "pool_inv cap s \<Longrightarrow> fst ` set (unallocated s) = fst ` set cap"
proof -
  assume "pool_inv cap s"
  then have "map fst (unallocated s) = map fst cap" by (simp add: pool_inv_def)
  then show ?thesis by (metis list.set_map)
qed

lemma satisfiable_keys_iff:
  assumes sub: "fst ` set req \<subseteq> fst ` set u"
  shows "(\<forall>(k, v) \<in> set req. k \<in> fst ` set u \<and> v \<le> lookup0 u k) \<longleftrightarrow> satisfiable u req"
proof -
  have "k \<in> fst ` set u" if "(k, v) \<in> set req" for k v
    using that sub by force
  then show ?thesis
    unfolding satisfiable_iff by blast
qed

lemma take_out_present:
  assumes dd: "distinct (map fst req)"
  shows "\<forall>(k, v) \<in> set req. lookup0 (take_out req u) k = lookup0 u k - v"
proof -
  have "lookup0 (take_out req u) k = lookup0 u k - v" if "(k, v) \<in> set req" for k v
    using lookup0_take_out [OF dd, of u k] lookup0_present [OF dd that] by simp
  then show ?thesis by blast
qed

lemma take_out_other:
  assumes dd: "distinct (map fst req)"
  shows "\<forall>k. k \<notin> fst ` set req \<longrightarrow> lookup0 (take_out req u) k = lookup0 u k"
  using dd by (simp add: lookup0_take_out lookup0_absent)

section \<open>Totality and sign of the pass\<close>

lemma admit_total:
  assumes c: "chan_inv n s"
  shows "\<exists>s'. admit nm s = Inr s' \<and> chan_inv n s'"
proof (cases "map_of (queue s) nm")
  case None
  with c admit_absent show ?thesis by blast
next
  case (Some it)
  show ?thesis
  proof (cases "satisfiable (unallocated s) (required it)")
    case False
    with c admit_unfit [OF Some] show ?thesis by blast
  next
    case True
    from admit_fit [OF Some True queued_open [OF c Some]] chan_inv_grant [OF c Some]
    show ?thesis by blast
  qed
qed

lemma pass_total:
  "chan_inv n s \<Longrightarrow> \<exists>s'. admission_pass ns s = Inr s' \<and> chan_inv n s'"
proof (induction ns arbitrary: s)
  case Nil
  then show ?case by simp
next
  case (Cons nm ns)
  from admit_total [OF Cons.prems] obtain s1
    where a: "admit nm s = Inr s1" and c1: "chan_inv n s1" by blast
  from Cons.IH [OF c1] a show ?case by simp
qed

lemma nonneg_demands_iff:
  "nonneg_demands s \<longleftrightarrow>
     (\<forall>p \<in> set (queue s). distinct (map fst (required (snd p))) \<and>
                            (\<forall>e \<in> set (required (snd p)). 0 \<le> snd e))"
  by (simp add: nonneg_demands_def list_all_iff)

lemma admit_nonneg:
  assumes a: "admit nm s = Inr s'" and nn: "nonneg_demands s"
  shows "nonneg_demands s' \<and>
         (lookup0 (unallocated s') k < 0 \<longrightarrow> lookup0 (unallocated s') k = lookup0 (unallocated s) k)"
proof (cases "map_of (queue s) nm")
  case None
  with a nn show ?thesis by (simp add: admit_def)
next
  case (Some it)
  show ?thesis
  proof (cases "satisfiable (unallocated s) (required it)")
    case False
    with a nn Some show ?thesis by (simp add: admit_def)
  next
    case True
    from a Some True
    have s': "s' = s\<lparr>unallocated := take_out (required it) (unallocated s),
                     queue := AList.delete nm (queue s), woken := it # woken s\<rparr>"
      by (simp add: admit_def split: if_splits)
    from Some have mem: "(nm, it) \<in> set (queue s)" by (rule map_of_SomeD)
    with nn have dd: "distinct (map fst (required it))"
      and pos: "\<forall>e \<in> set (required it). 0 \<le> snd e"
      by (auto simp: nonneg_demands_iff)
    have q: "nonneg_demands s'"
      using nn set_delete_subset [of nm "queue s"]
      by (auto simp: nonneg_demands_iff s')
    have u: "lookup0 (unallocated s') k = lookup0 (unallocated s) k - lookup0 (required it) k"
      by (simp add: s' lookup0_take_out [OF dd])
    have "lookup0 (unallocated s') k < 0 \<longrightarrow> lookup0 (unallocated s') k = lookup0 (unallocated s) k"
    proof (cases "k \<in> fst ` set (required it)")
      case False
      then show ?thesis by (simp add: u lookup0_absent)
    next
      case True
      then obtain v where kv: "(k, v) \<in> set (required it)" by auto
      with pos have "0 \<le> v" by force
      moreover from kv \<open>satisfiable (unallocated s) (required it)\<close>
      have "v \<le> lookup0 (unallocated s) k" by (auto simp: satisfiable_iff)
      moreover have "lookup0 (required it) k = v" using dd kv by (rule lookup0_present)
      ultimately show ?thesis by (simp add: u)
    qed
    with q show ?thesis ..
  qed
qed

lemma pass_nonneg:
  "admission_pass ns s = Inr s' \<Longrightarrow> nonneg_demands s \<Longrightarrow>
   nonneg_demands s' \<and>
   (lookup0 (unallocated s') k < 0 \<longrightarrow> lookup0 (unallocated s') k = lookup0 (unallocated s) k)"
proof (induction ns arbitrary: s)
  case Nil
  then show ?case by simp
next
  case (Cons nm ns)
  from Cons.prems(1) obtain s1 where a: "admit nm s = Inr s1" and b: "admission_pass ns s1 = Inr s'"
    by (auto split: sum.splits)
  from admit_nonneg [OF a Cons.prems(2), of k]
  have n1: "nonneg_demands s1"
    and k1: "lookup0 (unallocated s1) k < 0 \<longrightarrow> lookup0 (unallocated s1) k = lookup0 (unallocated s) k"
    by simp_all
  from Cons.IH [OF b n1]
  have n2: "nonneg_demands s'"
    and k2: "lookup0 (unallocated s') k < 0 \<longrightarrow> lookup0 (unallocated s') k = lookup0 (unallocated s1) k"
    by simp_all
  from k1 k2 have "lookup0 (unallocated s') k < 0 \<longrightarrow> lookup0 (unallocated s') k = lookup0 (unallocated s) k"
    by linarith
  with n2 show ?case ..
qed

lemma admit_woken_mono: "admit nm s = Inr s' \<Longrightarrow> set (woken s) \<subseteq> set (woken s')"
  by (auto simp: admit_def split: option.splits if_splits)

lemma pass_woken_mono: "admission_pass ns s = Inr s' \<Longrightarrow> set (woken s) \<subseteq> set (woken s')"
proof (induction ns arbitrary: s)
  case Nil
  then show ?case by simp
next
  case (Cons nm ns)
  from Cons.prems obtain s1 where a: "admit nm s = Inr s1" and b: "admission_pass ns s1 = Inr s'"
    by (auto split: sum.splits)
  from Cons.IH [OF b] admit_woken_mono [OF a] show ?case by blast
qed

lemma passed_over_Cons:
  assumes a: "admit k s = Inr s1" and p: "passed_over ns s1 s' nm it"
  shows "passed_over (k # ns) s s' nm it"
proof -
  from p obtain ns1 ns2 t where 1: "ns = ns1 @ nm # ns2" and 2: "admission_pass ns1 s1 = Inr t"
    and 3: "\<not> satisfiable (unallocated t) (required it)" and 4: "admit nm t = Inr t"
    and 5: "admission_pass ns2 t = Inr s'" and 6: "map_of (queue s') nm = Some it"
    unfolding passed_over_def by blast
  from 1 have e1: "k # ns = (k # ns1) @ nm # ns2" by simp
  from a 2 have e2: "admission_pass (k # ns1) s = Inr t" by simp
  show ?thesis
    unfolding passed_over_def using e1 e2 3 4 5 6 by blast
qed

lemma pass_entries:
  "distinct ns \<Longrightarrow> chan_inv n s \<Longrightarrow>
   \<exists>s'. admission_pass ns s = Inr s' \<and>
        (\<forall>nm \<in> set ns. \<forall>it. map_of (queue s) nm = Some it \<longrightarrow>
            granted s' nm it \<or> passed_over ns s s' nm it)"
proof (induction ns arbitrary: s)
  case Nil
  then show ?case by simp
next
  case (Cons k ns)
  from Cons.prems have dn: "distinct ns" and kn: "k \<notin> set ns" by simp_all
  from admit_total [OF Cons.prems(2)] obtain s1
    where a: "admit k s = Inr s1" and c1: "chan_inv n s1" by blast
  from Cons.IH [OF dn c1] obtain s'
    where b: "admission_pass ns s1 = Inr s'"
      and ih: "\<forall>nm \<in> set ns. \<forall>it. map_of (queue s1) nm = Some it \<longrightarrow>
            granted s' nm it \<or> passed_over ns s1 s' nm it" by blast
  have run: "admission_pass (k # ns) s = Inr s'" using a b by simp
  have "granted s' nm it \<or> passed_over (k # ns) s s' nm it"
    if mem: "nm \<in> set (k # ns)" and m: "map_of (queue s) nm = Some it" for nm it
  proof (cases "nm = k")
    case False
    with mem have "nm \<in> set ns" by simp
    moreover from admit_keeps [OF a False] m have "map_of (queue s1) nm = Some it" by simp
    ultimately have "granted s' nm it \<or> passed_over ns s1 s' nm it" using ih by blast
    with passed_over_Cons [OF a] show ?thesis by blast
  next
    case True
    from m True have mk: "map_of (queue s) k = Some it" by simp
    show ?thesis
    proof (cases "satisfiable (unallocated s) (required it)")
      case False
      from admit_unfit [OF mk False] a have s1: "s1 = s" by simp
      from pass_keeps [OF b kn] mk have "map_of (queue s') k = Some it" by (simp add: s1)
      moreover have "k # ns = [] @ k # ns" by simp
      moreover have "admission_pass [] s = Inr s" by simp
      moreover have "admit k s = Inr s" using a s1 by simp
      moreover have "admission_pass ns s = Inr s'" using b s1 by simp
      ultimately have "passed_over (k # ns) s s' k it"
        unfolding passed_over_def using False by blast
      with True show ?thesis by simp
    next
      case sat: True
      from admit_fit [OF mk sat queued_open [OF Cons.prems(2) mk]] a
      have s1: "s1 = s\<lparr>unallocated := take_out (required it) (unallocated s),
                        queue := AList.delete k (queue s), woken := it # woken s\<rparr>" by simp
      then have "it \<in> set (woken s1)" and q1: "map_of (queue s1) k = None"
        by (simp_all add: delete_conv')
      with pass_woken_mono [OF b] have "it \<in> set (woken s')" by blast
      moreover from pass_keeps [OF b kn] q1 have "map_of (queue s') k = None" by simp
      ultimately show ?thesis by (simp add: granted_def True)
    qed
  qed
  with run show ?case by blast
qed

section \<open>Idle pools, empty demands and lost channels\<close>

lemma unallocated_when_idle:
  assumes wi: "world_inv cap w" and idle: "held w = []"
  shows "unallocated (coord w) = cap"
proof (rule alist_eqI)
  from wi have p: "pool_inv cap (coord w)"
    and eq: "\<forall>k. lookup0 (unallocated (coord w)) k + total_of (held w) k = lookup0 cap k"
    by (simp_all add: world_inv_def)
  from p show "map fst (unallocated (coord w)) = map fst cap" by (simp add: pool_inv_def)
  from p show "distinct (map fst (unallocated (coord w)))" by (simp add: pool_inv_def)
  from eq idle show "\<forall>k. lookup0 (unallocated (coord w)) k = lookup0 cap k"
    by (simp add: total_of_Nil)
qed

lemma satisfiable_empty: "satisfiable u []"
  by (simp add: satisfiable_def)

lemma admit_abandoned:
  assumes a: "admit nm s = Inr s'" and ab: "abandoned c n s"
  shows "abandoned c n s'"
proof (cases "map_of (queue s) nm")
  case None
  with a ab show ?thesis by (simp add: admit_def)
next
  case (Some it)
  show ?thesis
  proof (cases "satisfiable (unallocated s) (required it)")
    case False
    with a ab Some show ?thesis by (simp add: admit_def)
  next
    case True
    from a Some True
    have s': "s' = s\<lparr>unallocated := take_out (required it) (unallocated s),
                     queue := AList.delete nm (queue s), woken := it # woken s\<rparr>"
      by (simp add: admit_def split: if_splits)
    from Some have mem: "(nm, it) \<in> set (queue s)" by (rule map_of_SomeD)
    with ab have ne: "wait it \<noteq> c" by (force simp: abandoned_def)
    from ab ne set_delete_subset [of nm "queue s"] show ?thesis
      by (auto simp: abandoned_def s')
  qed
qed

lemma pass_abandoned:
  "admission_pass ns s = Inr s' \<Longrightarrow> abandoned c n s \<Longrightarrow> abandoned c n s'"
proof (induction ns arbitrary: s)
  case Nil
  then show ?case by simp
next
  case (Cons nm ns)
  from Cons.prems(1) obtain s1 where a: "admit nm s = Inr s1" and b: "admission_pass ns s1 = Inr s'"
    by (auto split: sum.splits)
  from Cons.IH [OF b admit_abandoned [OF a Cons.prems(2)]] show ?case .
qed

lemma act_abandoned:
  assumes a: "act x w = Inr w'" and ab: "abandoned c (nchan w) (coord w)"
  shows "abandoned c (nchan w') (coord w')"
proof -
  obtain b ns where x: "x = (b, ns)" by (cases x)
  show ?thesis
  proof (cases "emit b w")
    case None
    with a ab show ?thesis by (simp add: x)
  next
    case (Some ev)
    with a obtain s' where cy: "admission_pass ns (select_event ev (coord w)) = Inr s'"
      and w': "coord w' = s'" "nchan w' = nchan (record_event ev w)"
      by (auto simp: x cycle_def split: sum.splits)
    have "abandoned c (nchan (record_event ev w)) (select_event ev (coord w))"
    proof (cases ev)
      case (ReleaseEv d)
      with ab show ?thesis by (simp add: abandoned_def)
    next
      case (EnqueueEv tr)
      from Some EnqueueEv obtain t req where b: "b = Call t req"
        and P: "Parallel (coord w) t (nchan w) req = Submit tr"
        by (cases b) (auto split: outcome.splits)
      from Parallel_Submit [OF P]
      have tr: "tr = \<lparr>name = t, item = \<lparr>wait = nchan w, required = req\<rparr>\<rparr>" by simp
      from ab have lt: "c < nchan w" by (simp add: abandoned_def)
      have "set (AList.update t \<lparr>wait = nchan w, required = req\<rparr> (queue (coord w)))
              \<subseteq> insert (t, \<lparr>wait = nchan w, required = req\<rparr>) (set (queue (coord w)))"
        by (rule set_update_subset)
      with ab lt show ?thesis
        by (auto simp: abandoned_def EnqueueEv tr)
    qed
    from pass_abandoned [OF cy this] w' show ?thesis by simp
  qed
qed

lemma exec_abandoned:
  "exec xs w = Inr w' \<Longrightarrow> abandoned c (nchan w) (coord w) \<Longrightarrow> abandoned c (nchan w') (coord w')"
proof (induction xs arbitrary: w)
  case Nil
  then show ?case by simp
next
  case (Cons x xs)
  from Cons.prems(1) obtain w1 where a: "act x w = Inr w1" and b: "exec xs w1 = Inr w'"
    by (auto split: sum.splits)
  from Cons.IH [OF b act_abandoned [OF a Cons.prems(2)]] show ?case .
qed

text \<open>Overwriting the entry of \<open>t\<close> drops the channel of the entry that was there.\<close>

lemma replace_abandons:
  assumes p: "pool_inv cap s" and c: "chan_inv n s" and m: "map_of (queue s) t = Some old"
  shows "abandoned (wait old) (Suc n)
           (select_event (EnqueueEv \<lparr>name = t, item = \<lparr>wait = n, required = req\<rparr>\<rparr>) s)"
proof -
  let ?new = "\<lparr>wait = n, required = req\<rparr>"
  let ?q = "AList.update t ?new (queue s)"
  from m have mem: "(t, old) \<in> set (queue s)" by (rule map_of_SomeD)
  with c have lt: "wait old < n" and nw: "wait old \<notin> wait ` set (woken s)"
    by (auto simp: chan_inv_def)
  from c have inj: "inj_on (\<lambda>p. wait (snd p)) (set (queue s))"
    by (simp add: chan_inv_def distinct_map)
  from p have dq: "distinct (map fst ?q)" by (simp add: pool_inv_def distinct_update)
  have "wait (snd x) \<noteq> wait old" if x: "x \<in> set ?q" for x
  proof
    assume e: "wait (snd x) = wait old"
    obtain k v where kv: "x = (k, v)" by (cases x)
    from x kv dq have mo: "map_of ?q k = Some v" by simp
    show False
    proof (cases "k = t")
      case True
      with mo have "v = ?new" by (simp add: update_conv')
      with e kv lt show False by simp
    next
      case False
      with mo have "map_of (queue s) k = Some v" by (simp add: update_conv')
      then have "(k, v) \<in> set (queue s)" by (rule map_of_SomeD)
      from inj_onD [OF inj _ this mem] e kv have "(k, v) = (t, old)" by simp
      with False show False by simp
    qed
  qed
  then have "wait old \<notin> (\<lambda>p. wait (snd p)) ` set ?q" by force
  with lt nw show ?thesis by (simp add: abandoned_def)
qed

section \<open>Lookups of the capacity map\<close>

lemma feasibility_loop_skips:
  "fst (feasibility_loop (available s) req) \<longleftrightarrow> Parallel s t c req = Skip"
proof (induction req)
  case Nil
  show ?case by (simp add: Parallel_def)
next
  case (Cons p req)
  obtain k v where p: "p = (k, v)" by (cases p)
  from Cons.IH show ?case
    by (auto simp: p Parallel_def split: option.splits prod.splits if_splits)
qed

lemma feasibility_loop_reads_le: "snd (feasibility_loop avail req) \<le> length req"
proof (induction req)
  case Nil
  show ?case by simp
next
  case (Cons p req)
  obtain k v where p: "p = (k, v)" by (cases p)
  from Cons.IH show ?case
    by (auto simp: p split: option.splits prod.splits)
qed

lemma feasibility_loop_reads_all:
  "\<not> fst (feasibility_loop avail req) \<Longrightarrow> snd (feasibility_loop avail req) = length req"
proof (induction req)
  case Nil
  show ?case by simp
next
  case (Cons p req)
  obtain k v where p: "p = (k, v)" by (cases p)
  from Cons.prems Cons.IH show ?case
    by (auto simp: p split: option.splits prod.splits if_splits)
qed

section \<open>Evaluation\<close>

lemmas eval_defs = boot_def Start_def init_def Parallel_def cycle_def admit_def satisfiable_def
  take_out_def give_back_def lookup0_def scan_order_def new_grants_def total_of_def
  resources_def half_def cpu16_def cpu8_def one_running_def crowd_def crowded_def thinned_def
  both_pending_def exhausted_def idle_again_def one_waiting_def

lemma crowd_run: "exec crowd (boot cpu16) = Inr crowded"
  by (simp add: eval_defs crowd_def crowded_def)

lemma crowd_adm: "admissible (crowd @ [(Done cpu16, [''A'', ''B'', ''C''])]) (boot cpu16)"
  by (simp add: eval_defs crowd_def crowded_def)

lemma crowd_release: "act (Done cpu16, [''A'', ''B'', ''C'']) crowded = Inr thinned"
  by (simp add: eval_defs crowd_def crowded_def thinned_def)

section \<open>The claims\<close>

text \<open>
  C1 (capacity invariant). Take any run from \<open>Start cap\<close> in which tests call
  \<open>Parallel\<close> and every release carries the demand of a grant that is still held.
  After every cycle of the coordinator (that is, after every prefix \<open>pre\<close> of the
  run) the coordinator has not panicked and, for every resource type \<open>k\<close>,
  \<open>unallocated[k]\<close> plus the sum of \<open>demand[k]\<close> over the held grants is \<open>cap[k]\<close>.
\<close>

theorem capacity_invariant:
  assumes "distinct (map fst cap)" and "admissible (pre @ post) (boot cap)"
  shows "\<exists>w. exec pre (boot cap) = Inr w \<and>
             (\<forall>k. lookup0 (unallocated (coord w)) k + total_of (held w) k = lookup0 cap k)"
proof -
  from admissible_append [OF assms(2)] have "admissible pre (boot cap)" ..
  from exec_inv [OF boot_inv [OF assms(1)] this] show ?thesis
    by (auto simp: world_inv_def)
qed

theorem capacity_invariant_witness:
  "distinct (map fst resources) \<and>
   admissible ([(Call ''TestSuccess1'' half, [''TestSuccess1'']),
                (Call ''TestSuccess4'' resources, [''TestSuccess4'']),
                (Done half, [''TestSuccess4''])] @ [(Done resources, [])]) (boot resources) \<and>
   (\<exists>w. exec [(Call ''TestSuccess1'' half, [''TestSuccess1'']),
               (Call ''TestSuccess4'' resources, [''TestSuccess4'']),
               (Done half, [''TestSuccess4''])] (boot resources) = Inr w \<and>
        (\<forall>k. lookup0 (unallocated (coord w)) k + total_of (held w) k = lookup0 resources k))"
proof -
  let ?pre = "[(Call ''TestSuccess1'' half, [''TestSuccess1'']),
               (Call ''TestSuccess4'' resources, [''TestSuccess4'']),
               (Done half, [''TestSuccess4''])]"
  let ?post = "[(Done resources, []::string list)]"
  have d: "distinct (map fst resources)" by (simp add: resources_def)
  have a: "admissible (?pre @ ?post) (boot resources)" by (simp add: eval_defs)
  from capacity_invariant [OF d a] d a show ?thesis by blast
qed

text \<open>
  C3 (feasibility). In any state \<open>w\<close> reached after \<open>Start cap\<close>, a call
  \<open>Parallel(t, req)\<close> skips the test exactly when some resource type of \<open>req\<close> is
  absent from \<open>cap\<close> or is demanded in a quantity above \<open>cap\<close>. When it skips, no
  event is sent; otherwise the enqueue event for \<open>t\<close>, the new channel and \<open>req\<close> is
  sent. The decision is the one \<open>Parallel\<close> would take right after \<open>Start\<close>: it does
  not depend on \<open>unallocated\<close> or the queue.
\<close>

theorem Parallel_skips_iff_infeasible:
  assumes "exec sched (boot cap) = Inr w"
  shows "(Parallel (coord w) t (nchan w) req = Skip \<longleftrightarrow>
            (\<exists>(k, v) \<in> set req. map_of cap k = None \<or> v > lookup0 cap k)) \<and>
         (Parallel (coord w) t (nchan w) req = Skip \<longrightarrow> emit (Call t req) w = None) \<and>
         (Parallel (coord w) t (nchan w) req \<noteq> Skip \<longrightarrow>
            emit (Call t req) w
              = Some (EnqueueEv \<lparr>name = t, item = \<lparr>wait = nchan w, required = req\<rparr>\<rparr>)) \<and>
         Parallel (coord w) t (nchan w) req = Parallel (Start cap init) t (nchan w) req"
proof -
  from available_exec [OF assms] have av: "available (coord w) = cap"
    by (simp add: available_boot)
  have av0: "available (Start cap init) = cap" by (simp add: Start_def)
  have 1: "Parallel (coord w) t (nchan w) req = Skip \<longleftrightarrow>
            (\<exists>(k, v) \<in> set req. map_of cap k = None \<or> v > lookup0 cap k)"
    by (simp add: Parallel_iff av)
  have 2: "Parallel (coord w) t (nchan w) req = Skip \<longrightarrow> emit (Call t req) w = None"
    by simp
  have 3: "Parallel (coord w) t (nchan w) req \<noteq> Skip \<longrightarrow>
            emit (Call t req) w
              = Some (EnqueueEv \<lparr>name = t, item = \<lparr>wait = nchan w, required = req\<rparr>\<rparr>)"
    by (simp add: Parallel_def)
  have 4: "Parallel (coord w) t (nchan w) req = Parallel (Start cap init) t (nchan w) req"
    by (simp add: Parallel_def av av0)
  from 1 2 3 4 show ?thesis by blast
qed

theorem Parallel_skips_iff_infeasible_witness:
  "exec [(Call ''TestSuccess4'' resources, [''TestSuccess4''])] (boot resources)
     = Inr \<lparr>coord = \<lparr>available = resources, unallocated = [(''cpu'', 0), (''memory'', 0)],
                      queue = [], woken = [\<lparr>wait = 0, required = resources\<rparr>]\<rparr>,
             nchan = 1, held = [resources]\<rparr> \<and>
   \<not> satisfiable [(''cpu'', 0), (''memory'', 0)] half \<and>
   emit (Call ''TestSuccess1'' half)
        \<lparr>coord = \<lparr>available = resources, unallocated = [(''cpu'', 0), (''memory'', 0)],
                   queue = [], woken = [\<lparr>wait = 0, required = resources\<rparr>]\<rparr>,
          nchan = 1, held = [resources]\<rparr>
     = Some (EnqueueEv \<lparr>name = ''TestSuccess1'', item = \<lparr>wait = 1, required = half\<rparr>\<rparr>) \<and>
   emit (Call ''TestSkip1'' [(''cpu'', 32)])
        \<lparr>coord = \<lparr>available = resources, unallocated = [(''cpu'', 0), (''memory'', 0)],
                   queue = [], woken = [\<lparr>wait = 0, required = resources\<rparr>]\<rparr>,
          nchan = 1, held = [resources]\<rparr> = None \<and>
   emit (Call ''TestSkip2'' [(''gpu'', 2)])
        \<lparr>coord = \<lparr>available = resources, unallocated = [(''cpu'', 0), (''memory'', 0)],
                   queue = [], woken = [\<lparr>wait = 0, required = resources\<rparr>]\<rparr>,
          nchan = 1, held = [resources]\<rparr> = None"
proof -
  let ?w = "\<lparr>coord = \<lparr>available = resources, unallocated = [(''cpu'', 0), (''memory'', 0)],
                     queue = [], woken = [\<lparr>wait = 0, required = resources\<rparr>]\<rparr>,
            nchan = 1, held = [resources]\<rparr>"
  have e: "exec [(Call ''TestSuccess4'' resources, [''TestSuccess4''])] (boot resources) = Inr ?w"
    by (simp add: eval_defs)
  have u: "\<not> satisfiable [(''cpu'', 0), (''memory'', 0)] half"
    by (simp add: eval_defs)
  from Parallel_skips_iff_infeasible [OF e, of "''TestSuccess1''" half]
  have a: "emit (Call ''TestSuccess1'' half) ?w
     = Some (EnqueueEv \<lparr>name = ''TestSuccess1'', item = \<lparr>wait = 1, required = half\<rparr>\<rparr>)"
    by (simp add: eval_defs)
  from Parallel_skips_iff_infeasible [OF e, of "''TestSkip1''" "[(''cpu'', 32)]"]
  have b: "emit (Call ''TestSkip1'' [(''cpu'', 32)]) ?w = None"
    by (simp add: eval_defs)
  from Parallel_skips_iff_infeasible [OF e, of "''TestSkip2''" "[(''gpu'', 2)]"]
  have c: "emit (Call ''TestSkip2'' [(''gpu'', 2)]) ?w = None"
    by (simp add: eval_defs)
  from e u a b c show ?thesis by blast
qed

text \<open>
  C10 (the capacity map is a frame), as amended. After \<open>Start cap\<close>, whatever tests
  call \<open>Parallel\<close> or release, \<open>available\<close> is still \<open>cap\<close>; no cycle of the
  coordinator (an enqueue or release event followed by the admission pass)
  changes it, and the coordinator does not read it: with any other value in
  \<open>available\<close> a cycle computes the same pool, queue and wake-ups. \<open>Parallel\<close> writes
  no variable and reads \<open>available\<close> once for every demanded type it examines:
  at most as many times as the demand has types, and exactly that many times when
  the test is not skipped.
\<close>

theorem available_never_mutated:
  assumes "exec sched (boot cap) = Inr w"
  shows "available (coord w) = cap \<and>
         (\<forall>ev ns s'. cycle ev ns (coord w) = Inr s' \<longrightarrow> available s' = cap) \<and>
         (\<forall>ev ns a. cycle ev ns ((coord w)\<lparr>available := a\<rparr>) =
            (case cycle ev ns (coord w) of Inl e \<Rightarrow> Inl e | Inr s' \<Rightarrow> Inr (s'\<lparr>available := a\<rparr>))) \<and>
         (\<forall>t c req.
            (fst (feasibility_loop (available (coord w)) req)
               \<longleftrightarrow> Parallel (coord w) t c req = Skip) \<and>
            snd (feasibility_loop (available (coord w)) req) \<le> length req \<and>
            (Parallel (coord w) t c req \<noteq> Skip \<longrightarrow>
               snd (feasibility_loop (available (coord w)) req) = length req))"
proof -
  from available_exec [OF assms] have av: "available (coord w) = cap"
    by (simp add: available_boot)
  have 1: "\<forall>ev ns s'. cycle ev ns (coord w) = Inr s' \<longrightarrow> available s' = cap"
    using available_cycle av by auto
  have 2: "\<forall>ev ns a. cycle ev ns ((coord w)\<lparr>available := a\<rparr>) =
            (case cycle ev ns (coord w) of Inl e \<Rightarrow> Inl e | Inr s' \<Rightarrow> Inr (s'\<lparr>available := a\<rparr>))"
    by (simp add: cycle_def select_ignores_available pass_ignores_available)
  have 3: "(fst (feasibility_loop (available (coord w)) req)
               \<longleftrightarrow> Parallel (coord w) t c req = Skip) \<and>
            snd (feasibility_loop (available (coord w)) req) \<le> length req \<and>
            (Parallel (coord w) t c req \<noteq> Skip \<longrightarrow>
               snd (feasibility_loop (available (coord w)) req) = length req)" for t c req
  proof (intro conjI impI)
    show sk: "fst (feasibility_loop (available (coord w)) req)
               \<longleftrightarrow> Parallel (coord w) t c req = Skip"
      by (rule feasibility_loop_skips)
    show "snd (feasibility_loop (available (coord w)) req) \<le> length req"
      by (rule feasibility_loop_reads_le)
    assume "Parallel (coord w) t c req \<noteq> Skip"
    with sk have "\<not> fst (feasibility_loop (available (coord w)) req)" by simp
    then show "snd (feasibility_loop (available (coord w)) req) = length req"
      by (rule feasibility_loop_reads_all)
  qed
  from av 1 2 3 show ?thesis by blast
qed

theorem available_never_mutated_witness:
  "exec [(Call ''TestSuccess1'' half, [''TestSuccess1'']),
         (Call ''TestSuccess4'' resources, [''TestSuccess4'']),
         (Done half, [''TestSuccess4''])] (boot resources)
     = Inr \<lparr>coord = \<lparr>available = resources, unallocated = [(''cpu'', 0), (''memory'', 0)],
                      queue = [],
                      woken = [\<lparr>wait = 1, required = resources\<rparr>, \<lparr>wait = 0, required = half\<rparr>]\<rparr>,
             nchan = 2, held = [resources]\<rparr> \<and>
   available \<lparr>available = resources, unallocated = [(''cpu'', 0), (''memory'', 0)],
              queue = [],
              woken = [\<lparr>wait = 1, required = resources\<rparr>, \<lparr>wait = 0, required = half\<rparr>]\<rparr>
     = resources \<and>
   snd (feasibility_loop resources half) \<le> length half \<and>
   feasibility_loop resources half = (False, 2) \<and>
   feasibility_loop resources [(''cpu'', 32), (''memory'', 1)] = (True, 1)"
proof -
  let ?w = "\<lparr>coord = \<lparr>available = resources, unallocated = [(''cpu'', 0), (''memory'', 0)],
                      queue = [],
                      woken = [\<lparr>wait = 1, required = resources\<rparr>, \<lparr>wait = 0, required = half\<rparr>]\<rparr>,
             nchan = 2, held = [resources]\<rparr>"
  have e: "exec [(Call ''TestSuccess1'' half, [''TestSuccess1'']),
         (Call ''TestSuccess4'' resources, [''TestSuccess4'']),
         (Done half, [''TestSuccess4''])] (boot resources) = Inr ?w"
    by (simp add: eval_defs)
  note inst = available_never_mutated [OF e]
  from inst have a: "available (coord ?w) = resources" by blast
  from inst have "snd (feasibility_loop (available (coord ?w)) half) \<le> length half" by blast
  then have b: "snd (feasibility_loop resources half) \<le> length half" by simp
  have c: "feasibility_loop resources half = (False, 2)"
    by (simp add: resources_def half_def)
  have d: "feasibility_loop resources [(''cpu'', 32), (''memory'', 1)] = (True, 1)"
    by (simp add: resources_def)
  from e a b c d show ?thesis by simp
qed

text \<open>
  C10 as it was stated says that every operation reads \<open>available\<close> at most once.
  Right after \<open>Start resources\<close>, the call of \<open>Parallel\<close> by \<^verbatim>\<open>TestSuccess1\<close>, which
  demands \<open>half\<close> (two resource types), is not skipped and reads it twice.
\<close>

theorem available_read_once_counterexample:
  "Parallel (coord (boot resources)) ''TestSuccess1'' 0 half \<noteq> Skip \<and>
   snd (feasibility_loop (available (coord (boot resources))) half) = 2 \<and>
   \<not> snd (feasibility_loop (available (coord (boot resources))) half) \<le> 1"
  by (simp add: eval_defs)

text \<open>
  C2 (all or nothing). Take any run from \<open>Start cap\<close> and the pass of its next
  cycle, at the moment it reaches the pending request \<open>nm\<close> in state \<open>s\<close>. If every
  resource type of its demand is a key of \<open>unallocated\<close> with a quantity of at
  least the demand, the request is granted: its channel is closed, it leaves the
  queue, and exactly the demanded quantity is subtracted for every type of the
  demand, nothing else in the pool changing. Otherwise the state, and so the
  pool, is left as it is.
\<close>

theorem grant_iff_every_type_fits:
  assumes cap: "distinct (map fst cap)"
    and adm: "admissible sched (boot cap)" and run: "exec sched (boot cap) = Inr w"
    and pm: "permitted (a, ns1 @ nm # ns2) w" and em: "emit a w = Some ev"
  shows "\<exists>s it. admission_pass ns1 (select_event ev (coord w)) = Inr s \<and>
           map_of (queue s) nm = Some it \<and>
           (if \<forall>(k, v) \<in> set (required it).
                  k \<in> fst ` set (unallocated s) \<and> v \<le> lookup0 (unallocated s) k
            then \<exists>s'. admit nm s = Inr s' \<and>
                   woken s' = it # woken s \<and> map_of (queue s') nm = None \<and>
                   map fst (unallocated s') = map fst (unallocated s) \<and>
                   (\<forall>(k, v) \<in> set (required it).
                      lookup0 (unallocated s') k = lookup0 (unallocated s) k - v) \<and>
                   (\<forall>k. k \<notin> fst ` set (required it) \<longrightarrow>
                      lookup0 (unallocated s') k = lookup0 (unallocated s) k)
            else admit nm s = Inr s)"
proof -
  from reach_entry [OF assms] obtain s it
    where pass: "admission_pass ns1 (select_event ev (coord w)) = Inr s"
      and m: "map_of (queue s) nm = Some it" and p: "pool_inv cap s"
      and c: "chan_inv (nchan (record_event ev w)) s" and dok: "demand_ok cap (required it)"
    by blast
  from dok pool_keys [OF p] have sub: "fst ` set (required it) \<subseteq> fst ` set (unallocated s)"
    and dd: "distinct (map fst (required it))" by (simp_all add: demand_ok_def)
  let ?fit = "\<forall>(k, v) \<in> set (required it).
                  k \<in> fst ` set (unallocated s) \<and> v \<le> lookup0 (unallocated s) k"
  let ?post = "\<lambda>s'. admit nm s = Inr s' \<and>
                   woken s' = it # woken s \<and> map_of (queue s') nm = None \<and>
                   map fst (unallocated s') = map fst (unallocated s) \<and>
                   (\<forall>(k, v) \<in> set (required it).
                      lookup0 (unallocated s') k = lookup0 (unallocated s) k - v) \<and>
                   (\<forall>k. k \<notin> fst ` set (required it) \<longrightarrow>
                      lookup0 (unallocated s') k = lookup0 (unallocated s) k)"
  have fits: "?fit \<longleftrightarrow> satisfiable (unallocated s) (required it)"
    using sub by (rule satisfiable_keys_iff)
  have main: "if ?fit then (\<exists>s'. ?post s') else admit nm s = Inr s"
  proof (cases "satisfiable (unallocated s) (required it)")
    case False
    then have nf: "\<not> ?fit" using fits by blast
    have un: "admit nm s = Inr s" using m False by (rule admit_unfit)
    from nf have e: "(if ?fit then (\<exists>s'. ?post s') else admit nm s = Inr s) = (admit nm s = Inr s)"
      by (rule if_not_P)
    show ?thesis by (rule iffD2 [OF e]) (rule un)
  next
    case True
    then have f: "?fit" using fits by blast
    define s' where "s' = s\<lparr>unallocated := take_out (required it) (unallocated s),
                 queue := AList.delete nm (queue s), woken := it # woken s\<rparr>"
    have a: "admit nm s = Inr s'"
      unfolding s'_def using m True queued_open [OF c m] by (rule admit_fit)
    have u: "unallocated s' = take_out (required it) (unallocated s)" by (simp add: s'_def)
    have wk: "woken s' = it # woken s" by (simp add: s'_def)
    have q: "map_of (queue s') nm = None"
      by (simp add: s'_def delete_conv')
    have k: "map fst (unallocated s') = map fst (unallocated s)"
      using keys_take_out [OF sub] by (simp only: u)
    have l1: "\<forall>(k, v) \<in> set (required it).
                lookup0 (unallocated s') k = lookup0 (unallocated s) k - v"
      using take_out_present [OF dd, of "unallocated s"] by (simp only: u)
    have l2: "\<forall>k. k \<notin> fst ` set (required it) \<longrightarrow>
                lookup0 (unallocated s') k = lookup0 (unallocated s) k"
      using take_out_other [OF dd, of "unallocated s"] by (simp only: u)
    have "?post s'"
      using a wk q k l1 l2 by (intro conjI)
    then have ex: "\<exists>s'. ?post s'" by (rule exI)
    from f have e: "(if ?fit then (\<exists>s'. ?post s') else admit nm s = Inr s) = (\<exists>s'. ?post s')"
      by (rule if_P)
    show ?thesis by (rule iffD2 [OF e]) (rule ex)
  qed
  from pass m main show ?thesis by (intro exI conjI)
qed

theorem grant_iff_every_type_fits_witness:
  "distinct (map fst resources) \<and>
   admissible [(Call ''TestSuccess1'' half, [''TestSuccess1''])] (boot resources) \<and>
   exec [(Call ''TestSuccess1'' half, [''TestSuccess1''])] (boot resources) = Inr one_running \<and>
   permitted (Call ''TestSuccess4'' resources, [] @ ''TestSuccess4'' # []) one_running \<and>
   emit (Call ''TestSuccess4'' resources) one_running
     = Some (EnqueueEv \<lparr>name = ''TestSuccess4'', item = \<lparr>wait = 1, required = resources\<rparr>\<rparr>) \<and>
   admit ''TestSuccess4''
     \<lparr>available = resources, unallocated = half,
      queue = [(''TestSuccess4'', \<lparr>wait = 1, required = resources\<rparr>)],
      woken = [\<lparr>wait = 0, required = half\<rparr>]\<rparr>
   = Inr \<lparr>available = resources, unallocated = half,
          queue = [(''TestSuccess4'', \<lparr>wait = 1, required = resources\<rparr>)],
          woken = [\<lparr>wait = 0, required = half\<rparr>]\<rparr>"
proof -
  let ?sched = "[(Call ''TestSuccess1'' half, [''TestSuccess1''])]"
  let ?ev = "EnqueueEv \<lparr>name = ''TestSuccess4'', item = \<lparr>wait = 1, required = resources\<rparr>\<rparr>"
  let ?s = "\<lparr>available = resources, unallocated = half,
      queue = [(''TestSuccess4'', \<lparr>wait = 1, required = resources\<rparr>)],
      woken = [\<lparr>wait = 0, required = half\<rparr>]\<rparr>"
  have d: "distinct (map fst resources)" by (simp add: resources_def)
  have a: "admissible ?sched (boot resources)" by (simp add: eval_defs)
  have e: "exec ?sched (boot resources) = Inr one_running" by (simp add: eval_defs)
  have p: "permitted (Call ''TestSuccess4'' resources, [] @ ''TestSuccess4'' # []) one_running"
    by (simp add: eval_defs)
  have m: "emit (Call ''TestSuccess4'' resources) one_running = Some ?ev"
    by (simp add: eval_defs)
  from grant_iff_every_type_fits [OF d a e p m] obtain s it
    where 1: "admission_pass [] (select_event ?ev (coord one_running)) = Inr s"
      and 2: "map_of (queue s) ''TestSuccess4'' = Some it"
      and 3: "if \<forall>(k, v) \<in> set (required it).
                  k \<in> fst ` set (unallocated s) \<and> v \<le> lookup0 (unallocated s) k
              then \<exists>s'. admit ''TestSuccess4'' s = Inr s' \<and>
                   woken s' = it # woken s \<and> map_of (queue s') ''TestSuccess4'' = None \<and>
                   map fst (unallocated s') = map fst (unallocated s) \<and>
                   (\<forall>(k, v) \<in> set (required it).
                      lookup0 (unallocated s') k = lookup0 (unallocated s) k - v) \<and>
                   (\<forall>k. k \<notin> fst ` set (required it) \<longrightarrow>
                      lookup0 (unallocated s') k = lookup0 (unallocated s) k)
              else admit ''TestSuccess4'' s = Inr s"
    by blast
  from 1 have s: "s = ?s" by (simp add: one_running_def)
  from 2 have it: "it = \<lparr>wait = 1, required = resources\<rparr>" by (simp add: s)
  have "\<not> (\<forall>(k, v) \<in> set (required it).
                  k \<in> fst ` set (unallocated s) \<and> v \<le> lookup0 (unallocated s) k)"
    by (simp add: s it resources_def half_def lookup0_def)
  with 3 have "admit ''TestSuccess4'' s = Inr s" by (simp only: if_False)
  then have "admit ''TestSuccess4'' ?s = Inr ?s" by (simp only: s)
  with d a e p m show ?thesis by blast
qed

text \<open>
  C5 (no over-allocation). Let every pending demand have no negative quantity,
  and let the wait channels of the pending requests be distinct and open. Then
  the pass over any names \<open>ns\<close> (a whole scan or any initial part of one, so after
  each single grant too) returns, and a resource type whose \<open>unallocated\<close> value
  is negative afterwards has the value it had before the pass: no grant took
  from it. In particular a value that was not negative is not negative afterwards.
\<close>

theorem no_over_allocation:
  assumes nn: "nonneg_demands s" and c: "chan_inv n s"
  shows "\<exists>s'. admission_pass ns s = Inr s' \<and>
           (\<forall>k. (lookup0 (unallocated s') k < 0 \<longrightarrow>
                   lookup0 (unallocated s') k = lookup0 (unallocated s) k) \<and>
                (0 \<le> lookup0 (unallocated s) k \<longrightarrow> 0 \<le> lookup0 (unallocated s') k))"
proof -
  from pass_total [OF c, of ns] obtain s' where p: "admission_pass ns s = Inr s'" by blast
  have "\<forall>k. (lookup0 (unallocated s') k < 0 \<longrightarrow>
                   lookup0 (unallocated s') k = lookup0 (unallocated s) k) \<and>
                (0 \<le> lookup0 (unallocated s) k \<longrightarrow> 0 \<le> lookup0 (unallocated s') k)"
  proof
    fix k
    from pass_nonneg [OF p nn, of k]
    show "(lookup0 (unallocated s') k < 0 \<longrightarrow>
                   lookup0 (unallocated s') k = lookup0 (unallocated s) k) \<and>
                (0 \<le> lookup0 (unallocated s) k \<longrightarrow> 0 \<le> lookup0 (unallocated s') k)"
      by linarith
  qed
  with p show ?thesis by blast
qed

theorem no_over_allocation_witness:
  "nonneg_demands (select_event (ReleaseEv cpu16) (coord crowded)) \<and>
   chan_inv 4 (select_event (ReleaseEv cpu16) (coord crowded)) \<and>
   (\<exists>s'. admission_pass [''A'', ''B'', ''C''] (select_event (ReleaseEv cpu16) (coord crowded))
           = Inr s' \<and>
         (\<forall>k. (lookup0 (unallocated s') k < 0 \<longrightarrow>
                 lookup0 (unallocated s') k
                   = lookup0 (unallocated (select_event (ReleaseEv cpu16) (coord crowded))) k) \<and>
              (0 \<le> lookup0 (unallocated (select_event (ReleaseEv cpu16) (coord crowded))) k \<longrightarrow>
                 0 \<le> lookup0 (unallocated s') k)))"
proof -
  let ?s = "select_event (ReleaseEv cpu16) (coord crowded)"
  have nn: "nonneg_demands ?s"
    by (simp add: nonneg_demands_def crowded_def cpu8_def cpu16_def)
  have c: "chan_inv 4 ?s" by (simp add: chan_inv_def crowded_def)
  from no_over_allocation [OF nn c, of "[''A'', ''B'', ''C'']"] nn c show ?thesis by blast
qed

text \<open>
  C6 (the whole pending set is evaluated). When the pass scans a queue whose
  wait channels are distinct and open, it returns, and every entry of the queue
  ends in one of two ways: it was granted (woken and removed), or it is still
  pending because at its turn, in the state \<open>s1\<close> reached after the entries
  before it, its demand did not fit; then nothing changed at its turn and the
  pass went on with the entries after it. And there is a run on the pool \<open>cpu16\<close>
  in which a single release event is followed by a pass that wakes two requests
  while a third stays pending.
\<close>

theorem pass_evaluates_every_entry:
  assumes so: "scan_order ns (queue s)" and c: "chan_inv n s"
  shows "(\<exists>s'. admission_pass ns s = Inr s' \<and>
           (\<forall>nm it. map_of (queue s) nm = Some it \<longrightarrow>
              (it \<in> set (woken s') \<and> map_of (queue s') nm = None) \<or>
              (map_of (queue s') nm = Some it \<and>
               (\<exists>ns1 ns2 s1. ns = ns1 @ nm # ns2 \<and> admission_pass ns1 s = Inr s1 \<and>
                  \<not> satisfiable (unallocated s1) (required it) \<and>
                  admit nm s1 = Inr s1 \<and> admission_pass ns2 s1 = Inr s')))) \<and>
         (\<exists>sched d ms w w'.
            admissible (sched @ [(Done d, ms)]) (boot cpu16) \<and>
            exec sched (boot cpu16) = Inr w \<and> act (Done d, ms) w = Inr w' \<and>
            length (woken (coord w')) = length (woken (coord w)) + 2 \<and>
            queue (coord w') \<noteq> [])"
proof
  from so have d: "distinct ns" and keys: "set ns = fst ` set (queue s)"
    by (simp_all add: scan_order_def)
  from pass_entries [OF d c] obtain s'
    where run: "admission_pass ns s = Inr s'"
      and all: "\<forall>nm \<in> set ns. \<forall>it. map_of (queue s) nm = Some it \<longrightarrow>
            granted s' nm it \<or> passed_over ns s s' nm it" by blast
  have "(it \<in> set (woken s') \<and> map_of (queue s') nm = None) \<or>
              (map_of (queue s') nm = Some it \<and>
               (\<exists>ns1 ns2 s1. ns = ns1 @ nm # ns2 \<and> admission_pass ns1 s = Inr s1 \<and>
                  \<not> satisfiable (unallocated s1) (required it) \<and>
                  admit nm s1 = Inr s1 \<and> admission_pass ns2 s1 = Inr s'))"
    if m: "map_of (queue s) nm = Some it" for nm it
  proof -
    from m have "(nm, it) \<in> set (queue s)" by (rule map_of_SomeD)
    then have "nm \<in> set ns" using keys by force
    with all m have "granted s' nm it \<or> passed_over ns s s' nm it" by blast
    then show ?thesis unfolding granted_def passed_over_def .
  qed
  with run show "\<exists>s'. admission_pass ns s = Inr s' \<and>
           (\<forall>nm it. map_of (queue s) nm = Some it \<longrightarrow>
              (it \<in> set (woken s') \<and> map_of (queue s') nm = None) \<or>
              (map_of (queue s') nm = Some it \<and>
               (\<exists>ns1 ns2 s1. ns = ns1 @ nm # ns2 \<and> admission_pass ns1 s = Inr s1 \<and>
                  \<not> satisfiable (unallocated s1) (required it) \<and>
                  admit nm s1 = Inr s1 \<and> admission_pass ns2 s1 = Inr s')))"
    by blast
next
  have "length (woken (coord thinned)) = length (woken (coord crowded)) + 2"
    and "queue (coord thinned) \<noteq> []"
    by (simp_all add: thinned_def crowded_def)
  with crowd_adm crowd_run crowd_release
  show "\<exists>sched d ms w w'.
            admissible (sched @ [(Done d, ms)]) (boot cpu16) \<and>
            exec sched (boot cpu16) = Inr w \<and> act (Done d, ms) w = Inr w' \<and>
            length (woken (coord w')) = length (woken (coord w)) + 2 \<and>
            queue (coord w') \<noteq> []"
    by blast
qed

theorem pass_evaluates_every_entry_witness:
  "scan_order [''A'', ''B'', ''C''] (queue (select_event (ReleaseEv cpu16) (coord crowded))) \<and>
   chan_inv 4 (select_event (ReleaseEv cpu16) (coord crowded)) \<and>
   admission_pass [''A'', ''B'', ''C''] (select_event (ReleaseEv cpu16) (coord crowded))
     = Inr (coord thinned) \<and>
   \<lparr>wait = 1, required = cpu8\<rparr> \<in> set (woken (coord thinned)) \<and>
   map_of (queue (coord thinned)) ''B'' = Some \<lparr>wait = 2, required = cpu16\<rparr> \<and>
   \<lparr>wait = 3, required = cpu8\<rparr> \<in> set (woken (coord thinned)) \<and>
   (\<exists>ns1 ns2 s1. [''A'', ''B'', ''C''] = ns1 @ ''B'' # ns2 \<and>
      admission_pass ns1 (select_event (ReleaseEv cpu16) (coord crowded)) = Inr s1 \<and>
      \<not> satisfiable (unallocated s1) cpu16 \<and> admit ''B'' s1 = Inr s1 \<and>
      admission_pass ns2 s1 = Inr (coord thinned))"
proof -
  let ?s = "select_event (ReleaseEv cpu16) (coord crowded)"
  have so: "scan_order [''A'', ''B'', ''C''] (queue ?s)"
    by (simp add: scan_order_def crowded_def)
  have c: "chan_inv 4 ?s" by (simp add: chan_inv_def crowded_def)
  have run: "admission_pass [''A'', ''B'', ''C''] ?s = Inr (coord thinned)"
    by (simp add: eval_defs crowded_def thinned_def)
  have mB: "map_of (queue ?s) ''B'' = Some \<lparr>wait = 2, required = cpu16\<rparr>"
    by (simp add: crowded_def)
  have nB: "\<not> (\<lparr>wait = 2, required = cpu16\<rparr> \<in> set (woken (coord thinned)) \<and>
                map_of (queue (coord thinned)) ''B'' = None)"
    by (simp add: thinned_def)
  from pass_evaluates_every_entry [OF so c, THEN conjunct1] obtain s'
    where r: "admission_pass [''A'', ''B'', ''C''] ?s = Inr s'"
      and all: "\<forall>nm it. map_of (queue ?s) nm = Some it \<longrightarrow>
              (it \<in> set (woken s') \<and> map_of (queue s') nm = None) \<or>
              (map_of (queue s') nm = Some it \<and>
               (\<exists>ns1 ns2 s1. [''A'', ''B'', ''C''] = ns1 @ nm # ns2 \<and>
                  admission_pass ns1 ?s = Inr s1 \<and>
                  \<not> satisfiable (unallocated s1) (required it) \<and>
                  admit nm s1 = Inr s1 \<and> admission_pass ns2 s1 = Inr s'))"
    by (elim exE conjE)
  from r run have s': "s' = coord thinned" by simp
  let ?Q = "map_of (queue (coord thinned)) ''B'' = Some \<lparr>wait = 2, required = cpu16\<rparr> \<and>
     (\<exists>ns1 ns2 s1. [''A'', ''B'', ''C''] = ns1 @ ''B'' # ns2 \<and>
      admission_pass ns1 ?s = Inr s1 \<and>
      \<not> satisfiable (unallocated s1) (required \<lparr>wait = 2, required = cpu16\<rparr>) \<and>
      admit ''B'' s1 = Inr s1 \<and>
      admission_pass ns2 s1 = Inr (coord thinned))"
  from all [rule_format, OF mB]
  have "(\<lparr>wait = 2, required = cpu16\<rparr> \<in> set (woken (coord thinned)) \<and>
                map_of (queue (coord thinned)) ''B'' = None) \<or> ?Q"
    unfolding s' .
  then have B: ?Q
  proof (rule disjE)
    assume "\<lparr>wait = 2, required = cpu16\<rparr> \<in> set (woken (coord thinned)) \<and>
                map_of (queue (coord thinned)) ''B'' = None"
    with nB show ?Q by (rule notE)
  next
    assume ?Q then show ?Q .
  qed
  have A: "\<lparr>wait = 1, required = cpu8\<rparr> \<in> set (woken (coord thinned))"
    and C: "\<lparr>wait = 3, required = cpu8\<rparr> \<in> set (woken (coord thinned))"
    by (simp_all add: thinned_def)
  from so c run A B C show ?thesis by simp
qed

text \<open>
  C4 (release unblocks the waiter). On the pool \<open>cpu16\<close> two tests ask for all of
  it. In the run, the first is granted in its own cycle and the second stays in
  the queue; after the release event of the holder the pass of that same cycle
  wakes the second, with no enqueue event in between. And if both were pending
  in one pass (whatever the scan order), the pass grants the one it reaches
  first and leaves the other pending, and the cycle of the holder's release
  grants the other.
\<close>

theorem release_unblocks_waiter:
  assumes ab: "a \<noteq> b" and cab: "ca \<noteq> cb"
  shows "admissible [(Call a cpu16, [a]), (Call b cpu16, [b]), (Done cpu16, [b])] (boot cpu16) \<and>
         exec [(Call a cpu16, [a]), (Call b cpu16, [b])] (boot cpu16)
           = Inr \<lparr>coord = \<lparr>available = cpu16, unallocated = [(''cpu'', 0)],
                            queue = [(b, \<lparr>wait = 1, required = cpu16\<rparr>)],
                            woken = [\<lparr>wait = 0, required = cpu16\<rparr>]\<rparr>,
                   nchan = 2, held = [cpu16]\<rparr> \<and>
         exec [(Call a cpu16, [a]), (Call b cpu16, [b]), (Done cpu16, [b])] (boot cpu16)
           = Inr \<lparr>coord = \<lparr>available = cpu16, unallocated = [(''cpu'', 0)],
                            queue = [],
                            woken = [\<lparr>wait = 1, required = cpu16\<rparr>, \<lparr>wait = 0, required = cpu16\<rparr>]\<rparr>,
                   nchan = 2, held = [cpu16]\<rparr> \<and>
         admission_pass [a, b] (both_pending a ca b cb)
           = Inr \<lparr>available = cpu16, unallocated = [(''cpu'', 0)],
                   queue = [(b, \<lparr>wait = cb, required = cpu16\<rparr>)],
                   woken = [\<lparr>wait = ca, required = cpu16\<rparr>]\<rparr> \<and>
         admission_pass [b, a] (both_pending a ca b cb)
           = Inr \<lparr>available = cpu16, unallocated = [(''cpu'', 0)],
                   queue = [(a, \<lparr>wait = ca, required = cpu16\<rparr>)],
                   woken = [\<lparr>wait = cb, required = cpu16\<rparr>]\<rparr> \<and>
         cycle (ReleaseEv cpu16) [b]
            \<lparr>available = cpu16, unallocated = [(''cpu'', 0)],
             queue = [(b, \<lparr>wait = cb, required = cpu16\<rparr>)],
             woken = [\<lparr>wait = ca, required = cpu16\<rparr>]\<rparr>
           = Inr \<lparr>available = cpu16, unallocated = [(''cpu'', 0)], queue = [],
                   woken = [\<lparr>wait = cb, required = cpu16\<rparr>, \<lparr>wait = ca, required = cpu16\<rparr>]\<rparr> \<and>
         cycle (ReleaseEv cpu16) [a]
            \<lparr>available = cpu16, unallocated = [(''cpu'', 0)],
             queue = [(a, \<lparr>wait = ca, required = cpu16\<rparr>)],
             woken = [\<lparr>wait = cb, required = cpu16\<rparr>]\<rparr>
           = Inr \<lparr>available = cpu16, unallocated = [(''cpu'', 0)], queue = [],
                   woken = [\<lparr>wait = ca, required = cpu16\<rparr>, \<lparr>wait = cb, required = cpu16\<rparr>]\<rparr>"
proof (intro conjI)
  show "admissible [(Call a cpu16, [a]), (Call b cpu16, [b]), (Done cpu16, [b])] (boot cpu16)"
    by (simp add: eval_defs)
  show "exec [(Call a cpu16, [a]), (Call b cpu16, [b])] (boot cpu16)
           = Inr \<lparr>coord = \<lparr>available = cpu16, unallocated = [(''cpu'', 0)],
                            queue = [(b, \<lparr>wait = 1, required = cpu16\<rparr>)],
                            woken = [\<lparr>wait = 0, required = cpu16\<rparr>]\<rparr>,
                   nchan = 2, held = [cpu16]\<rparr>"
    by (simp add: eval_defs)
  show "exec [(Call a cpu16, [a]), (Call b cpu16, [b]), (Done cpu16, [b])] (boot cpu16)
           = Inr \<lparr>coord = \<lparr>available = cpu16, unallocated = [(''cpu'', 0)],
                            queue = [],
                            woken = [\<lparr>wait = 1, required = cpu16\<rparr>, \<lparr>wait = 0, required = cpu16\<rparr>]\<rparr>,
                   nchan = 2, held = [cpu16]\<rparr>"
    by (simp add: eval_defs)
  show "admission_pass [a, b] (both_pending a ca b cb)
           = Inr \<lparr>available = cpu16, unallocated = [(''cpu'', 0)],
                   queue = [(b, \<lparr>wait = cb, required = cpu16\<rparr>)],
                   woken = [\<lparr>wait = ca, required = cpu16\<rparr>]\<rparr>"
    using ab cab by (simp add: eval_defs both_pending_def)
  show "admission_pass [b, a] (both_pending a ca b cb)
           = Inr \<lparr>available = cpu16, unallocated = [(''cpu'', 0)],
                   queue = [(a, \<lparr>wait = ca, required = cpu16\<rparr>)],
                   woken = [\<lparr>wait = cb, required = cpu16\<rparr>]\<rparr>"
    using ab cab by (simp add: eval_defs both_pending_def)
  show "cycle (ReleaseEv cpu16) [b]
            \<lparr>available = cpu16, unallocated = [(''cpu'', 0)],
             queue = [(b, \<lparr>wait = cb, required = cpu16\<rparr>)],
             woken = [\<lparr>wait = ca, required = cpu16\<rparr>]\<rparr>
           = Inr \<lparr>available = cpu16, unallocated = [(''cpu'', 0)], queue = [],
                   woken = [\<lparr>wait = cb, required = cpu16\<rparr>, \<lparr>wait = ca, required = cpu16\<rparr>]\<rparr>"
    using ab cab by (simp add: eval_defs)
  show "cycle (ReleaseEv cpu16) [a]
            \<lparr>available = cpu16, unallocated = [(''cpu'', 0)],
             queue = [(a, \<lparr>wait = ca, required = cpu16\<rparr>)],
             woken = [\<lparr>wait = cb, required = cpu16\<rparr>]\<rparr>
           = Inr \<lparr>available = cpu16, unallocated = [(''cpu'', 0)], queue = [],
                   woken = [\<lparr>wait = ca, required = cpu16\<rparr>, \<lparr>wait = cb, required = cpu16\<rparr>]\<rparr>"
    using ab cab by (simp add: eval_defs)
qed

theorem release_unblocks_waiter_witness:
  "''TestA'' \<noteq> ''TestB'' \<and> (0::nat) \<noteq> 1 \<and>
   exec [(Call ''TestA'' cpu16, [''TestA'']), (Call ''TestB'' cpu16, [''TestB'']),
         (Done cpu16, [''TestB''])] (boot cpu16)
     = Inr \<lparr>coord = \<lparr>available = cpu16, unallocated = [(''cpu'', 0)], queue = [],
                      woken = [\<lparr>wait = 1, required = cpu16\<rparr>, \<lparr>wait = 0, required = cpu16\<rparr>]\<rparr>,
             nchan = 2, held = [cpu16]\<rparr> \<and>
   admission_pass [''TestB'', ''TestA''] (both_pending ''TestA'' 0 ''TestB'' 1)
     = Inr \<lparr>available = cpu16, unallocated = [(''cpu'', 0)],
             queue = [(''TestA'', \<lparr>wait = 0, required = cpu16\<rparr>)],
             woken = [\<lparr>wait = 1, required = cpu16\<rparr>]\<rparr>"
proof -
  have n: "''TestA'' \<noteq> ''TestB''" by simp
  have c: "(0::nat) \<noteq> 1" by simp
  from release_unblocks_waiter [OF n c] n c show ?thesis by blast
qed


text \<open>
  C7 (grant then release is the identity). Take any run from \<open>Start cap\<close> and the
  pass of its next cycle at the moment it reaches a pending request whose demand
  fits: the grant subtracts the demand from \<open>unallocated\<close>, and a release event
  carrying that demand puts \<open>unallocated\<close> back to exactly what it was before the
  grant. And whenever every grant of a run has been released (no grant is held),
  \<open>unallocated\<close> is exactly \<open>cap\<close> again.
\<close>

theorem release_restores_pool:
  assumes cap: "distinct (map fst cap)"
    and adm: "admissible sched (boot cap)" and run: "exec sched (boot cap) = Inr w"
    and pm: "permitted (a, ns1 @ nm # ns2) w" and em: "emit a w = Some ev"
  shows "(\<exists>s it. admission_pass ns1 (select_event ev (coord w)) = Inr s \<and>
            map_of (queue s) nm = Some it \<and>
            (satisfiable (unallocated s) (required it) \<longrightarrow>
               (\<exists>s'. admit nm s = Inr s' \<and> it \<in> set (woken s') \<and>
                     unallocated s' = take_out (required it) (unallocated s) \<and>
                     unallocated (select_event (ReleaseEv (required it)) s') = unallocated s))) \<and>
         (held w = [] \<longrightarrow> unallocated (coord w) = cap)"
proof
  from reach_entry [OF assms] obtain s it
    where pass: "admission_pass ns1 (select_event ev (coord w)) = Inr s"
      and m: "map_of (queue s) nm = Some it" and p: "pool_inv cap s"
      and c: "chan_inv (nchan (record_event ev w)) s" and dok: "demand_ok cap (required it)"
    by blast
  from dok pool_keys [OF p] have sub: "fst ` set (required it) \<subseteq> fst ` set (unallocated s)"
    and dd: "distinct (map fst (required it))" by (simp_all add: demand_ok_def)
  from p cap have du: "distinct (map fst (unallocated s))" by (simp add: pool_inv_def)
  have "\<exists>s'. admit nm s = Inr s' \<and> it \<in> set (woken s') \<and>
                     unallocated s' = take_out (required it) (unallocated s) \<and>
                     unallocated (select_event (ReleaseEv (required it)) s') = unallocated s"
    if sat: "satisfiable (unallocated s) (required it)"
  proof -
    define s' where "s' = s\<lparr>unallocated := take_out (required it) (unallocated s),
                 queue := AList.delete nm (queue s), woken := it # woken s\<rparr>"
    have a: "admit nm s = Inr s'"
      unfolding s'_def using m sat queued_open [OF c m] by (rule admit_fit)
    have u: "unallocated s' = take_out (required it) (unallocated s)" by (simp add: s'_def)
    have wk: "it \<in> set (woken s')" by (simp add: s'_def)
    have "unallocated (select_event (ReleaseEv (required it)) s')
            = give_back (required it) (take_out (required it) (unallocated s))"
      by (simp add: u)
    also have "\<dots> = unallocated s" using dd du sub by (rule give_back_take_out)
    finally have r: "unallocated (select_event (ReleaseEv (required it)) s') = unallocated s" .
    from a wk u r show ?thesis by blast
  qed
  with pass m show "\<exists>s it. admission_pass ns1 (select_event ev (coord w)) = Inr s \<and>
            map_of (queue s) nm = Some it \<and>
            (satisfiable (unallocated s) (required it) \<longrightarrow>
               (\<exists>s'. admit nm s = Inr s' \<and> it \<in> set (woken s') \<and>
                     unallocated s' = take_out (required it) (unallocated s) \<and>
                     unallocated (select_event (ReleaseEv (required it)) s') = unallocated s))"
    by blast
next
  from exec_inv [OF boot_inv [OF cap] adm] run have wi: "world_inv cap w" by simp
  then show "held w = [] \<longrightarrow> unallocated (coord w) = cap"
    using unallocated_when_idle by blast
qed

theorem release_restores_pool_witness:
  "distinct (map fst resources) \<and>
   admissible [(Call ''TestSuccess1'' half, [''TestSuccess1'']), (Done half, [])] (boot resources) \<and>
   exec [(Call ''TestSuccess1'' half, [''TestSuccess1'']), (Done half, [])] (boot resources)
     = Inr idle_again \<and>
   permitted (Call ''TestSuccess2'' half, [] @ ''TestSuccess2'' # []) idle_again \<and>
   emit (Call ''TestSuccess2'' half) idle_again
     = Some (EnqueueEv \<lparr>name = ''TestSuccess2'', item = \<lparr>wait = 1, required = half\<rparr>\<rparr>) \<and>
   held idle_again = [] \<and> unallocated (coord idle_again) = resources \<and>
   (\<exists>s'. admit ''TestSuccess2''
            \<lparr>available = resources, unallocated = resources,
             queue = [(''TestSuccess2'', \<lparr>wait = 1, required = half\<rparr>)],
             woken = [\<lparr>wait = 0, required = half\<rparr>]\<rparr> = Inr s' \<and>
         unallocated s' = half \<and>
         unallocated (select_event (ReleaseEv half) s') = resources)"
proof -
  let ?sched = "[(Call ''TestSuccess1'' half, [''TestSuccess1'']), (Done half, [])]"
  let ?ev = "EnqueueEv \<lparr>name = ''TestSuccess2'', item = \<lparr>wait = 1, required = half\<rparr>\<rparr>"
  let ?s = "\<lparr>available = resources, unallocated = resources,
             queue = [(''TestSuccess2'', \<lparr>wait = 1, required = half\<rparr>)],
             woken = [\<lparr>wait = 0, required = half\<rparr>]\<rparr>"
  have d: "distinct (map fst resources)" by (simp add: resources_def)
  have a: "admissible ?sched (boot resources)" by (simp add: eval_defs)
  have e: "exec ?sched (boot resources) = Inr idle_again" by (simp add: eval_defs)
  have p: "permitted (Call ''TestSuccess2'' half, [] @ ''TestSuccess2'' # []) idle_again"
    by (simp add: eval_defs)
  have m: "emit (Call ''TestSuccess2'' half) idle_again = Some ?ev"
    by (simp add: eval_defs)
  have h: "held idle_again = []" by (simp add: idle_again_def)
  note inst = release_restores_pool [OF d a e p m]
  from inst h have u: "unallocated (coord idle_again) = resources" by blast
  from inst obtain s it
    where 1: "admission_pass [] (select_event ?ev (coord idle_again)) = Inr s"
      and 2: "map_of (queue s) ''TestSuccess2'' = Some it"
      and 3: "satisfiable (unallocated s) (required it) \<longrightarrow>
               (\<exists>s'. admit ''TestSuccess2'' s = Inr s' \<and> it \<in> set (woken s') \<and>
                     unallocated s' = take_out (required it) (unallocated s) \<and>
                     unallocated (select_event (ReleaseEv (required it)) s') = unallocated s)"
    by blast
  from 1 have s: "s = ?s" by (simp add: idle_again_def)
  from 2 have it: "it = \<lparr>wait = 1, required = half\<rparr>" by (simp add: s)
  have sat: "satisfiable (unallocated s) (required it)"
    by (simp add: s it eval_defs)
  have t: "take_out half resources = half" by (simp add: eval_defs)
  from 3 sat obtain s' where "admit ''TestSuccess2'' s = Inr s'"
    and "unallocated s' = take_out (required it) (unallocated s)"
    and "unallocated (select_event (ReleaseEv (required it)) s') = unallocated s"
    by blast
  then have "admit ''TestSuccess2'' ?s = Inr s' \<and> unallocated s' = half \<and>
         unallocated (select_event (ReleaseEv half) s') = resources"
    by (simp add: s it t)
  then have "\<exists>s'. admit ''TestSuccess2'' ?s = Inr s' \<and> unallocated s' = half \<and>
         unallocated (select_event (ReleaseEv half) s') = resources" ..
  with d a e p m h u show ?thesis by blast
qed


text \<open>
  C8 (the empty demand). Whatever the state \<open>s\<close> (so whatever \<open>available\<close> and
  however little is left in \<open>unallocated\<close>), \<open>Parallel\<close> does not skip a test
  whose demand is empty; in the cycle of its enqueue event, whatever the scan
  order, the request is woken and removed from the queue; and granting such a
  request writes the queue and the channel only, so \<open>unallocated\<close> stays as it
  is. The wait channels are distinct and open and \<open>n\<close> is the channel just made.
\<close>

theorem empty_demand_admitted_at_once:
  assumes c: "chan_inv n s"
    and so: "scan_order ns
               (queue (select_event (EnqueueEv \<lparr>name = t, item = \<lparr>wait = n, required = []\<rparr>\<rparr>) s))"
  shows "Parallel s t n [] = Submit \<lparr>name = t, item = \<lparr>wait = n, required = []\<rparr>\<rparr> \<and>
         (\<exists>s'. cycle (EnqueueEv \<lparr>name = t, item = \<lparr>wait = n, required = []\<rparr>\<rparr>) ns s = Inr s' \<and>
               \<lparr>wait = n, required = []\<rparr> \<in> set (woken s') \<and> map_of (queue s') t = None) \<and>
         (\<forall>s1 it. map_of (queue s1) t = Some it \<and> required it = [] \<and>
                  wait it \<notin> wait ` set (woken s1) \<longrightarrow>
            admit t s1 = Inr (s1\<lparr>queue := AList.delete t (queue s1), woken := it # woken s1\<rparr>))"
proof (intro conjI)
  show "Parallel s t n [] = Submit \<lparr>name = t, item = \<lparr>wait = n, required = []\<rparr>\<rparr>"
    by (simp add: Parallel_def)
next
  let ?it = "\<lparr>wait = n, required = []\<rparr>"
  let ?s1 = "select_event (EnqueueEv \<lparr>name = t, item = ?it\<rparr>) s"
  from c have c1: "chan_inv (Suc n) ?s1" by (rule enqueue_chan_inv)
  from so have d: "distinct ns" and keys: "set ns = fst ` set (queue ?s1)"
    by (simp_all add: scan_order_def)
  have m: "map_of (queue ?s1) t = Some ?it" by (simp add: update_conv')
  then have "(t, ?it) \<in> set (queue ?s1)" by (rule map_of_SomeD)
  with keys have tn: "t \<in> set ns" by force
  from pass_entries [OF d c1] obtain s'
    where run: "admission_pass ns ?s1 = Inr s'"
      and all: "\<forall>nm \<in> set ns. \<forall>it. map_of (queue ?s1) nm = Some it \<longrightarrow>
            granted s' nm it \<or> passed_over ns ?s1 s' nm it" by blast
  from all tn m have "granted s' t ?it \<or> passed_over ns ?s1 s' t ?it" by blast
  moreover have "\<not> passed_over ns ?s1 s' t ?it"
    by (simp add: passed_over_def satisfiable_empty)
  ultimately have "granted s' t ?it" by blast
  then have "?it \<in> set (woken s') \<and> map_of (queue s') t = None" by (simp add: granted_def)
  moreover have "cycle (EnqueueEv \<lparr>name = t, item = ?it\<rparr>) ns s = Inr s'"
    using run by (simp only: cycle_def)
  ultimately show "\<exists>s'. cycle (EnqueueEv \<lparr>name = t, item = ?it\<rparr>) ns s = Inr s' \<and>
               ?it \<in> set (woken s') \<and> map_of (queue s') t = None" by blast
next
  show "\<forall>s1 it. map_of (queue s1) t = Some it \<and> required it = [] \<and>
                  wait it \<notin> wait ` set (woken s1) \<longrightarrow>
            admit t s1 = Inr (s1\<lparr>queue := AList.delete t (queue s1), woken := it # woken s1\<rparr>)"
    by (simp add: admit_def satisfiable_empty take_out_Nil)
qed

theorem empty_demand_admitted_at_once_witness:
  "chan_inv 1 (coord exhausted) \<and>
   scan_order [''TestEmpty'']
     (queue (select_event (EnqueueEv \<lparr>name = ''TestEmpty'', item = \<lparr>wait = 1, required = []\<rparr>\<rparr>)
               (coord exhausted))) \<and>
   Parallel (coord exhausted) ''TestEmpty'' 1 []
     = Submit \<lparr>name = ''TestEmpty'', item = \<lparr>wait = 1, required = []\<rparr>\<rparr> \<and>
   cycle (EnqueueEv \<lparr>name = ''TestEmpty'', item = \<lparr>wait = 1, required = []\<rparr>\<rparr>) [''TestEmpty'']
         (coord exhausted)
     = Inr \<lparr>available = resources, unallocated = [(''cpu'', 0), (''memory'', 0)], queue = [],
             woken = [\<lparr>wait = 1, required = []\<rparr>, \<lparr>wait = 0, required = resources\<rparr>]\<rparr>"
proof -
  let ?ev = "EnqueueEv \<lparr>name = ''TestEmpty'', item = \<lparr>wait = 1, required = []\<rparr>\<rparr>"
  have c: "chan_inv 1 (coord exhausted)" by (simp add: chan_inv_def exhausted_def)
  have so: "scan_order [''TestEmpty''] (queue (select_event ?ev (coord exhausted)))"
    by (simp add: scan_order_def exhausted_def)
  have r: "cycle ?ev [''TestEmpty''] (coord exhausted)
     = Inr \<lparr>available = resources, unallocated = [(''cpu'', 0), (''memory'', 0)], queue = [],
             woken = [\<lparr>wait = 1, required = []\<rparr>, \<lparr>wait = 0, required = resources\<rparr>]\<rparr>"
    by (simp add: eval_defs)
  from empty_demand_admitted_at_once [OF c so] c so r show ?thesis by blast
qed


text \<open>
  C9 (a replaced entry is lost). In a run from \<open>Start cap\<close>, let an entry \<open>old\<close> be
  pending under the name \<open>t\<close> when another call of \<open>Parallel\<close> with the same test
  name is enqueued. The queue then holds the new item under \<open>t\<close>, whose channel is
  not the old one, and however the run goes on, the coordinator does not panic
  and the channel of \<open>old\<close> is never closed and is in no queue entry: the earlier
  waiter is never woken.
\<close>

theorem replaced_waiter_never_woken:
  assumes cap: "distinct (map fst cap)"
    and adm: "admissible (sched @ (Call t req, ns) # rest) (boot cap)"
    and run: "exec sched (boot cap) = Inr w"
    and old: "map_of (queue (coord w)) t = Some old"
    and sent: "Parallel (coord w) t (nchan w) req \<noteq> Skip"
  shows "map_of (queue (select_event
                          (EnqueueEv \<lparr>name = t, item = \<lparr>wait = nchan w, required = req\<rparr>\<rparr>)
                          (coord w))) t
           = Some \<lparr>wait = nchan w, required = req\<rparr> \<and>
         wait old \<noteq> nchan w \<and>
         (\<exists>w'. exec (sched @ (Call t req, ns) # rest) (boot cap) = Inr w' \<and>
               wait old \<notin> wait ` set (woken (coord w')) \<and>
               wait old \<notin> (\<lambda>p. wait (snd p)) ` set (queue (coord w')))"
proof -
  let ?new = "\<lparr>wait = nchan w, required = req\<rparr>"
  let ?ev = "EnqueueEv \<lparr>name = t, item = ?new\<rparr>"
  from admissible_append [OF adm] run
  have adm1: "admissible sched (boot cap)" and adm2: "admissible ((Call t req, ns) # rest) w"
    by simp_all
  from exec_inv [OF boot_inv [OF cap] adm1] run have wi: "world_inv cap w" by simp
  then have p: "pool_inv cap (coord w)" and c: "chan_inv (nchan w) (coord w)"
    by (simp_all add: world_inv_def)
  from sent have em: "emit (Call t req) w = Some ?ev"
    by (simp add: Parallel_def split: if_splits)
  from exec_inv [OF wi adm2] obtain w' where e2: "exec ((Call t req, ns) # rest) w = Inr w'"
    by blast
  then obtain w1 where a1: "act (Call t req, ns) w = Inr w1" and e3: "exec rest w1 = Inr w'"
    by (auto split: sum.splits)
  from a1 em obtain s1 where cy: "admission_pass ns (select_event ?ev (coord w)) = Inr s1"
    and w1: "coord w1 = s1" "nchan w1 = Suc (nchan w)"
    by (auto simp: cycle_def split: sum.splits)
  from replace_abandons [OF p c old]
  have ab0: "abandoned (wait old) (Suc (nchan w)) (select_event ?ev (coord w))" .
  from pass_abandoned [OF cy ab0] w1 have "abandoned (wait old) (nchan w1) (coord w1)" by simp
  from exec_abandoned [OF e3 this] have ab: "abandoned (wait old) (nchan w') (coord w')" .
  have full: "exec (sched @ (Call t req, ns) # rest) (boot cap) = Inr w'"
    using run e2 by (simp add: exec_append)
  from old have "(t, old) \<in> set (queue (coord w))" by (rule map_of_SomeD)
  with c have ne: "wait old \<noteq> nchan w" by (auto simp: chan_inv_def)
  have q: "map_of (queue (select_event ?ev (coord w))) t = Some ?new"
    by (simp add: update_conv')
  from ab have "wait old \<notin> wait ` set (woken (coord w'))"
    and "wait old \<notin> (\<lambda>p. wait (snd p)) ` set (queue (coord w'))"
    by (simp_all add: abandoned_def)
  with full q ne show ?thesis by blast
qed

theorem replaced_waiter_never_woken_witness:
  "distinct (map fst cpu16) \<and>
   admissible ([(Call ''H'' cpu16, [''H'']), (Call ''B'' cpu16, [''B''])]
               @ (Call ''B'' cpu8, [''B'']) # [(Done cpu16, [''B''])]) (boot cpu16) \<and>
   exec [(Call ''H'' cpu16, [''H'']), (Call ''B'' cpu16, [''B''])] (boot cpu16) = Inr one_waiting \<and>
   map_of (queue (coord one_waiting)) ''B'' = Some \<lparr>wait = 1, required = cpu16\<rparr> \<and>
   Parallel (coord one_waiting) ''B'' (nchan one_waiting) cpu8 \<noteq> Skip \<and>
   exec ([(Call ''H'' cpu16, [''H'']), (Call ''B'' cpu16, [''B''])]
         @ (Call ''B'' cpu8, [''B'']) # [(Done cpu16, [''B''])]) (boot cpu16)
     = Inr \<lparr>coord = \<lparr>available = cpu16, unallocated = [(''cpu'', 8)], queue = [],
                      woken = [\<lparr>wait = 2, required = cpu8\<rparr>, \<lparr>wait = 0, required = cpu16\<rparr>]\<rparr>,
             nchan = 3, held = [cpu8]\<rparr> \<and>
   (\<exists>w'. exec ([(Call ''H'' cpu16, [''H'']), (Call ''B'' cpu16, [''B''])]
               @ (Call ''B'' cpu8, [''B'']) # [(Done cpu16, [''B''])]) (boot cpu16) = Inr w' \<and>
         wait \<lparr>wait = 1, required = cpu16\<rparr> \<notin> wait ` set (woken (coord w')))"
proof -
  let ?sched = "[(Call ''H'' cpu16, [''H'']), (Call ''B'' cpu16, [''B''])]"
  let ?rest = "[(Done cpu16, [''B''])]"
  have d: "distinct (map fst cpu16)" by (simp add: cpu16_def)
  have a: "admissible (?sched @ (Call ''B'' cpu8, [''B'']) # ?rest) (boot cpu16)"
    by (simp add: eval_defs)
  have e: "exec ?sched (boot cpu16) = Inr one_waiting" by (simp add: eval_defs)
  have o: "map_of (queue (coord one_waiting)) ''B'' = Some \<lparr>wait = 1, required = cpu16\<rparr>"
    by (simp add: one_waiting_def)
  have p: "Parallel (coord one_waiting) ''B'' (nchan one_waiting) cpu8 \<noteq> Skip"
    by (simp add: eval_defs)
  have f: "exec (?sched @ (Call ''B'' cpu8, [''B'']) # ?rest) (boot cpu16)
     = Inr \<lparr>coord = \<lparr>available = cpu16, unallocated = [(''cpu'', 8)], queue = [],
                      woken = [\<lparr>wait = 2, required = cpu8\<rparr>, \<lparr>wait = 0, required = cpu16\<rparr>]\<rparr>,
             nchan = 3, held = [cpu8]\<rparr>"
    by (simp add: eval_defs)
  from replaced_waiter_never_woken [OF d a e o p]
  have "\<exists>w'. exec (?sched @ (Call ''B'' cpu8, [''B'']) # ?rest) (boot cpu16) = Inr w' \<and>
         wait \<lparr>wait = 1, required = cpu16\<rparr> \<notin> wait ` set (woken (coord w'))"
    by blast
  with d a e o p f show ?thesis by blast
qed

end
